theory Spec2Isabelle
  imports Complex_Main "HOL-Library.Log_Nat" "HOL-Library.AList"
begin

section \<open>Python values used by pdfsplit\<close>

text \<open>
  The exceptions that can leave \<open>split_pdf\<close>, \<open>find_pdfs\<close> and \<open>split_many\<close>.
  \<open>ValueError\<close> and \<open>FileExistsError\<close> are raised by \<open>core.py\<close> itself and carry
  the message of the source; the others pass through from Python's built-ins, from
  \<open>pathlib\<close> and from PyMuPDF.
\<close>

datatype error =
    ValueError string
  | FileExistsError string
  | KeyError string
  | IndexError string
  | OverflowError string
  | ZeroDivisionError string
  | RuntimeError string
  | OSError string
  | FitzError string

subsection \<open>Strings\<close>

definition lower_char :: "char \<Rightarrow> char" where
  "lower_char c =
     (let n = (of_char c :: nat) in if 65 \<le> n \<and> n \<le> 90 then char_of (n + 32) else c)"

definition lower :: "string \<Rightarrow> string" where
  "lower s = map lower_char s"

definition endswith :: "string \<Rightarrow> string \<Rightarrow> bool" where
  "endswith s suf \<longleftrightarrow> length suf \<le> length s \<and> drop (length s - length suf) s = suf"

text \<open>\<open>s.rfind(c)\<close>: the last index of \<open>c\<close>, \<open>None\<close> for Python's \<open>-1\<close>.\<close>

fun rfind :: "char \<Rightarrow> string \<Rightarrow> nat option" where
  "rfind c [] = None"
| "rfind c (x # xs) =
     (case rfind c xs of
        Some i \<Rightarrow> Some (Suc i)
      | None \<Rightarrow> if x = c then Some 0 else None)"

definition digit_char :: "nat \<Rightarrow> char" where
  "digit_char d = char_of (48 + d)"

fun str_nat :: "nat \<Rightarrow> string" where
  "str_nat n = (if n < 10 then [digit_char n] else str_nat (n div 10) @ [digit_char (n mod 10)])"

declare str_nat.simps [simp del]

subsection \<open>Integer true division and \<open>math.ceil\<close>\<close>

text \<open>
  \<open>total / max_pages\<close> divides two Python integers and returns a binary64 float: the
  quotient rounded to the nearest float, ties to even, \<open>OverflowError\<close> when it is too
  large and \<open>ZeroDivisionError\<close> for a zero divisor. A finite float is kept as
  \<open>Float m e\<close>, standing for \<open>m * 2 ^ e\<close>.
\<close>

datatype pyfloat = Float int int

definition round_half_even :: "int \<Rightarrow> int \<Rightarrow> int" where
  "round_half_even n d =
     (let q = n div d; r = n mod d
      in if d < 2 * r \<or> (2 * r = d \<and> odd q) then q + 1 else q)"

text \<open>The binary exponent of \<open>a / b\<close> for positive \<open>a\<close>, \<open>b\<close>: \<open>2 ^ e \<le> a / b < 2 ^ (e + 1)\<close>.\<close>

definition quot_exp :: "int \<Rightarrow> int \<Rightarrow> int" where
  "quot_exp a b =
     (let d = bitlen a - bitlen b
      in if b * 2 ^ nat d \<le> a * 2 ^ nat (- d) then d else d - 1)"

definition truediv_pos :: "int \<Rightarrow> int \<Rightarrow> error + pyfloat" where
  "truediv_pos a b =
     (let e = quot_exp a b;
          sh = max e (- 1022) - 52;
          m = round_half_even (a * 2 ^ nat (- sh)) (b * 2 ^ nat sh)
      in if 1023 < e \<or> (e = 1023 \<and> m = 2 ^ 53)
         then Inl (OverflowError ''integer division result too large for a float'')
         else Inr (Float m sh))"

definition truediv :: "int \<Rightarrow> int \<Rightarrow> error + pyfloat" where
  "truediv a b =
     (if b = 0 then Inl (ZeroDivisionError ''division by zero'')
      else if a = 0 then Inr (Float 0 0)
      else (case truediv_pos \<bar>a\<bar> \<bar>b\<bar> of
              Inl e \<Rightarrow> Inl e
            | Inr (Float m sh) \<Rightarrow> Inr (Float (sgn a * sgn b * m) sh)))"

fun math_ceil :: "pyfloat \<Rightarrow> int" where
  "math_ceil (Float m sh) =
     (if 0 \<le> sh then m * 2 ^ nat sh else - ((- m) div 2 ^ nat (- sh)))"

text \<open>\<open>range(n)\<close> for an integer \<open>n\<close>: empty when \<open>n \<le> 0\<close>.\<close>

definition py_range :: "int \<Rightarrow> int list" where
  "py_range n = map int [0..<nat n]"

subsection \<open>\<open>str.format\<close>\<close>

text \<open>
  \<open>pattern.format(stem=..., i=..., i0=..., start=..., end=...)\<close> is Python's built-in.
  \<open>split_pdf\<close> below takes it as the parameter \<open>fmt\<close>, so what is proved holds for
  every behaviour of the formatter. \<open>str_format\<close> is the part of it that the default
  pattern and plain patterns use: literal text, \<open>{{\<close> and \<open>}}\<close>, and the fields
  \<open>{name}\<close> and \<open>{name:spec}\<close> over the five keywords, with \<open>spec\<close> an optional \<open>0\<close>, an
  optional width and an optional \<open>d\<close> for the integers. A format string outside that
  part gives \<open>RuntimeError ''not modelled''\<close>.
\<close>

type_synonym formatter = "string \<Rightarrow> string \<Rightarrow> int \<Rightarrow> int \<Rightarrow> int \<Rightarrow> int \<Rightarrow> error + string"

definition is_digit :: "char \<Rightarrow> bool" where
  "is_digit c \<longleftrightarrow> 48 \<le> (of_char c :: nat) \<and> (of_char c :: nat) \<le> 57"

definition nat_of_digits :: "string \<Rightarrow> nat" where
  "nat_of_digits ds = foldl (\<lambda>acc c. 10 * acc + ((of_char c :: nat) - 48)) 0 ds"

text \<open>An integer under the spec \<open>[0][width][d]\<close>: right-aligned, zero padding after the sign.\<close>

definition format_int :: "string \<Rightarrow> int \<Rightarrow> error + string" where
  "format_int spec n =
     (let body = (if spec \<noteq> [] \<and> last spec = CHR ''d'' then butlast spec else spec);
          zero = (body \<noteq> [] \<and> hd body = CHR ''0'');
          w = nat_of_digits body;
          sign = (if n < 0 then ''-'' else [] :: string);
          ds = str_nat (nat \<bar>n\<bar>);
          pad = w - (length sign + length ds)
      in if \<not> list_all is_digit body then Inl (RuntimeError ''not modelled'')
         else if zero then Inr (sign @ replicate pad (CHR ''0'') @ ds)
         else Inr (replicate pad (CHR '' '') @ sign @ ds))"

definition format_field :: "string \<Rightarrow> string \<Rightarrow> int \<Rightarrow> int \<Rightarrow> int \<Rightarrow> int \<Rightarrow> error + string" where
  "format_field field stem i i0 start end =
     (let nm = takeWhile (\<lambda>c. c \<noteq> CHR '':'') field;
          spec = drop (Suc (length nm)) field
      in if nm = ''stem'' then (if spec = [] \<or> spec = ''s'' then Inr stem
                                else Inl (RuntimeError ''not modelled''))
         else if nm = ''i'' then format_int spec i
         else if nm = ''i0'' then format_int spec i0
         else if nm = ''start'' then format_int spec start
         else if nm = ''end'' then format_int spec end
         else if nm = [] \<or> list_all is_digit nm
           then Inl (IndexError ''Replacement index out of range for positional args tuple'')
         else if list_ex (\<lambda>c. c \<in> set ''.[!'') nm then Inl (RuntimeError ''not modelled'')
         else Inl (KeyError nm))"

text \<open>
  The scanner: \<open>cur\<close> is \<open>None\<close> in literal text and \<open>Some f\<close> inside a replacement
  field whose text so far is \<open>f\<close>.
\<close>

fun format_scan ::
  "string \<Rightarrow> int \<Rightarrow> int \<Rightarrow> int \<Rightarrow> int \<Rightarrow> string option \<Rightarrow> string \<Rightarrow> error + string" where
  "format_scan stem i i0 start end None [] = Inr []"
| "format_scan stem i i0 start end (Some f) [] =
     Inl (ValueError ''expected '}' before end of string'')"
| "format_scan stem i i0 start end None (c # cs) =
     (if (c = CHR 0x7B \<or> c = CHR 0x7D) \<and> cs \<noteq> [] \<and> hd cs = c
      then (case format_scan stem i i0 start end None (tl cs) of
              Inl e \<Rightarrow> Inl e | Inr s \<Rightarrow> Inr (c # s))
      else if c = CHR 0x7B then format_scan stem i i0 start end (Some []) cs
      else if c = CHR 0x7D then Inl (ValueError ''Single '}' encountered in format string'')
      else (case format_scan stem i i0 start end None cs of
              Inl e \<Rightarrow> Inl e | Inr s \<Rightarrow> Inr (c # s)))"
| "format_scan stem i i0 start end (Some f) (c # cs) =
     (if c = CHR 0x7D
      then (case format_field f stem i i0 start end of
              Inl e \<Rightarrow> Inl e
            | Inr v \<Rightarrow> (case format_scan stem i i0 start end None cs of
                         Inl e \<Rightarrow> Inl e | Inr s \<Rightarrow> Inr (v @ s)))
      else if c = CHR 0x7B then Inl (RuntimeError ''not modelled'')
      else format_scan stem i i0 start end (Some (f @ [c])) cs)"

definition str_format :: formatter where
  "str_format pattern stem i i0 start end = format_scan stem i i0 start end None pattern"


section \<open>Paths and the file system\<close>

text \<open>
  A path is its list of components, read from one root, which is also the working
  directory of the process; \<open>[]\<close> is that root. \<open>pathlib\<close> keeps \<open>..\<close> as a component
  and so does the model, where it is an ordinary name.
\<close>

type_synonym path = "string list"

fun split_sep :: "string \<Rightarrow> string list" where
  "split_sep [] = [[]]"
| "split_sep (c # cs) =
     (if c = CHR ''/'' then [] # split_sep cs
      else (case split_sep cs of [] \<Rightarrow> [[c]] | w # ws \<Rightarrow> (c # w) # ws))"

definition parse_path :: "string \<Rightarrow> path" where
  "parse_path s = filter (\<lambda>w. w \<noteq> [] \<and> w \<noteq> ''.'') (split_sep s)"

text \<open>A \<open>str | Path\<close> argument. A \<open>Path\<close> object is always truthy, the empty \<open>str\<close> is not.\<close>

datatype path_arg = Str string | PathObj path

fun Path :: "path_arg \<Rightarrow> path" where
  "Path (Str s) = parse_path s"
| "Path (PathObj p) = p"

fun truthy_arg :: "path_arg option \<Rightarrow> bool" where
  "truthy_arg None = False"
| "truthy_arg (Some (Str s)) = (s \<noteq> [])"
| "truthy_arg (Some (PathObj p)) = True"

definition parent :: "path \<Rightarrow> path" where
  "parent p = butlast p"

definition name :: "path \<Rightarrow> string" where
  "name p = (if p = [] then [] else last p)"

definition suffix :: "path \<Rightarrow> string" where
  "suffix p =
     (let n = name p
      in case rfind (CHR ''.'') n of
           None \<Rightarrow> []
         | Some i \<Rightarrow> if 0 < i \<and> Suc i < length n then drop i n else [])"

definition stem :: "path \<Rightarrow> string" where
  "stem p =
     (let n = name p
      in case rfind (CHR ''.'') n of
           None \<Rightarrow> n
         | Some i \<Rightarrow> if 0 < i \<and> Suc i < length n then take i n else n)"

text \<open>\<open>d / s\<close>: an absolute \<open>s\<close> replaces \<open>d\<close>.\<close>

definition joinpath :: "path \<Rightarrow> string \<Rightarrow> path" where
  "joinpath d s = (if s \<noteq> [] \<and> hd s = CHR ''/'' then parse_path s else d @ parse_path s)"

fun intercalate :: "string \<Rightarrow> string list \<Rightarrow> string" where
  "intercalate sep [] = []"
| "intercalate sep [w] = w"
| "intercalate sep (w # ws) = w @ sep @ intercalate sep ws"

definition path_str :: "path \<Rightarrow> string" where
  "path_str p = (if p = [] then ''.'' else intercalate ''/'' p)"

subsection \<open>Documents\<close>

text \<open>
  What \<open>split_pdf\<close> reads of a PyMuPDF document: its pages (\<open>page_count\<close> is their
  number), its metadata dictionary, whether it still needs a password
  (\<open>is_encrypted\<close>) and the passwords \<open>authenticate\<close> accepts. The dictionary is kept
  as the entries of \<open>doc.metadata\<close> that have a value, in the order of the library's
  keys.
\<close>

type_synonym page = nat

record pdf =
  pages :: "page list"
  metadata :: "(string \<times> string) list"
  is_encrypted :: bool
  passwords :: "string list"

definition page_count :: "pdf \<Rightarrow> int" where
  "page_count d = int (length (pages d))"

definition authenticate :: "pdf \<Rightarrow> string \<Rightarrow> bool" where
  "authenticate d pw \<longleftrightarrow> pw \<in> set (passwords d)"

text \<open>
  \<open>fitz.open()\<close> with no argument: a new, empty PDF. Its metadata has the format and
  nothing else.
\<close>

definition fitz_new :: pdf where
  "fitz_new = \<lparr>pages = [], metadata = [(''format'', ''PDF 1.7'')], is_encrypted = False,
     passwords = []\<rparr>"

text \<open>
  \<open>part.insert_pdf(src, from_page, to_page)\<close> appends the pages \<open>from_page..to_page\<close> of
  \<open>src\<close>, both inclusive. PyMuPDF clamps the two numbers into the source's page range
  (a negative \<open>to_page\<close> is the last page) and copies backwards when \<open>from_page\<close> is the
  larger one.
\<close>

definition insert_pdf :: "pdf \<Rightarrow> pdf \<Rightarrow> int \<Rightarrow> int \<Rightarrow> pdf" where
  "insert_pdf part src from_page to_page =
     (let n = page_count src;
          fp = min (max from_page 0) (n - 1);
          tp = min (if to_page < 0 then n - 1 else to_page) (n - 1);
          sel = (if fp \<le> tp then [fp..tp] else rev [tp..fp])
      in if n = 0 then part
         else part\<lparr>pages := pages part @ map (\<lambda>k. pages src ! nat k) sel\<rparr>)"

text \<open>
  \<open>part.set_metadata(m)\<close>, for a dictionary \<open>m\<close> as \<open>doc.metadata\<close> reports it. It
  raises \<open>ValueError\<close> for a key outside the library's fixed set and then leaves the
  document as it was. Otherwise it writes the nine entries of the PDF's Info
  dictionary, removing those that \<open>m\<close> has no value for; \<open>format\<close> and \<open>encryption\<close>
  are not written, they stay those of the document itself.
\<close>

definition info_keys :: "string list" where
  "info_keys =
     [''title'', ''author'', ''subject'', ''keywords'', ''creator'', ''producer'',
      ''creationDate'', ''modDate'', ''trapped'']"

definition metadata_keys :: "string list" where
  "metadata_keys = ''format'' # ''encryption'' # info_keys"

definition set_metadata :: "pdf \<Rightarrow> (string \<times> string) list \<Rightarrow> error + pdf" where
  "set_metadata d m =
     (if list_all (\<lambda>(k, v). k \<in> set metadata_keys) m
      then Inr (d\<lparr>metadata := filter (\<lambda>(k, v). k \<notin> set info_keys) (metadata d) @
                               filter (\<lambda>(k, v). k \<in> set info_keys) m\<rparr>)
      else Inl (ValueError ''bad dict key(s)''))"

subsection \<open>The file system\<close>

text \<open>
  The file system is the list of its entries, in the order in which a directory
  listing returns them. A regular file holds a PDF (\<open>File (Some d)\<close>) or something
  PyMuPDF cannot open (\<open>File None\<close>); \<open>Link t\<close> is a symbolic link to the file \<open>t\<close>.
  Symbolic links to directories and links in the middle of a path are outside the
  model. The root is always a directory.
\<close>

datatype node = Dir | File "pdf option" | Link path

type_synonym fs = "(path \<times> node) list"

text \<open>Following the links at \<open>p\<close>, at most \<open>n\<close> of them after the first: \<open>None\<close> is a loop.\<close>

primrec readlink :: "nat \<Rightarrow> fs \<Rightarrow> path \<Rightarrow> path option" where
  "readlink 0 fs p = (case map_of fs p of Some (Link t) \<Rightarrow> None | _ \<Rightarrow> Some p)"
| "readlink (Suc n) fs p = (case map_of fs p of Some (Link t) \<Rightarrow> readlink n fs t | _ \<Rightarrow> Some p)"

definition resolve :: "fs \<Rightarrow> path \<Rightarrow> path option" where
  "resolve fs p = readlink 40 fs p"

definition stat :: "fs \<Rightarrow> path \<Rightarrow> node option" where
  "stat fs p =
     (case resolve fs p of
        None \<Rightarrow> None
      | Some r \<Rightarrow> if r = [] then Some Dir else map_of fs r)"

definition path_exists :: "fs \<Rightarrow> path \<Rightarrow> bool" where
  "path_exists fs p \<longleftrightarrow> stat fs p \<noteq> None"

definition is_file :: "fs \<Rightarrow> path \<Rightarrow> bool" where
  "is_file fs p = (case stat fs p of Some (File c) \<Rightarrow> True | _ \<Rightarrow> False)"

definition is_dir :: "fs \<Rightarrow> path \<Rightarrow> bool" where
  "is_dir fs p = (case stat fs p of Some Dir \<Rightarrow> True | _ \<Rightarrow> False)"

text \<open>
  \<open>output_dir.mkdir(parents=True, exist_ok=True)\<close>, from the root down: \<open>q\<close> is the
  prefix already known to be a directory. An existing directory is kept, a missing one
  is created, anything else in the way is an error.
\<close>

fun mkdir_parents :: "fs \<Rightarrow> path \<Rightarrow> string list \<Rightarrow> error + fs" where
  "mkdir_parents fs q [] = Inr fs"
| "mkdir_parents fs q (c # cs) =
     (if is_dir fs (q @ [c]) then mkdir_parents fs (q @ [c]) cs
      else if map_of fs (q @ [c]) \<noteq> None
        then Inl (if cs = [] then FileExistsError (path_str (q @ [c]))
                  else OSError (path_str (q @ [c])))
      else mkdir_parents (AList.update (q @ [c]) Dir fs) (q @ [c]) cs)"

definition mkdir :: "fs \<Rightarrow> path \<Rightarrow> error + fs" where
  "mkdir fs p = mkdir_parents fs [] p"

text \<open>\<open>fitz.open(path)\<close>: the document in the file, read when it is opened.\<close>

definition fitz_open :: "fs \<Rightarrow> path \<Rightarrow> error + pdf" where
  "fitz_open fs p =
     (case stat fs p of
        Some (File (Some d)) \<Rightarrow> Inr d
      | Some (File None) \<Rightarrow> Inl (FitzError ''Failed to open file'')
      | _ \<Rightarrow> Inl (FitzError ''no such file''))"

text \<open>
  \<open>part.save(path, garbage=4, deflate=True)\<close>: PyMuPDF refuses a document without
  pages. MuPDF then removes what is at the path (a file, a link itself and not its
  target, a directory when it is empty) and creates a regular file there; the
  directory of the path must exist.
\<close>

definition has_children :: "fs \<Rightarrow> path \<Rightarrow> bool" where
  "has_children fs p = list_ex (\<lambda>q. q \<noteq> [] \<and> butlast q = p) (map fst fs)"

definition save :: "fs \<Rightarrow> path \<Rightarrow> pdf \<Rightarrow> error + fs" where
  "save fs p d =
     (if pages d = [] then Inl (ValueError ''cannot save with zero pages'')
      else if p = [] \<or> \<not> is_dir fs (parent p) \<or> (map_of fs p = Some Dir \<and> has_children fs p)
        then Inl (OSError (path_str p))
      else Inr (AList.update p (File (Some d)) fs))"


text \<open>
  \<open>Path.glob\<close> and \<open>Path.rglob\<close> for a pattern of one component with \<open>*\<close> and \<open>?\<close>:
  the entries below \<open>p\<close> (the children for \<open>glob\<close>, every descendant reached through
  directories for \<open>rglob\<close>) whose name matches, in listing order. \<open>pathlib\<close> compares
  names as the platform does: with case on POSIX (\<open>cs = True\<close>), without on Windows.
\<close>

fun fnmatch :: "string \<Rightarrow> string \<Rightarrow> bool" where
  "fnmatch [] [] = True"
| "fnmatch (c # cs) [] = False"
| "fnmatch [] (p # ps) = (p = CHR ''*'' \<and> fnmatch [] ps)"
| "fnmatch (c # cs) (p # ps) =
     (if p = CHR ''*'' then fnmatch (c # cs) ps \<or> fnmatch cs (p # ps)
      else (p = CHR ''?'' \<or> p = c) \<and> fnmatch cs ps)"

definition glob_match :: "bool \<Rightarrow> string \<Rightarrow> string \<Rightarrow> bool" where
  "glob_match cs nm pattern =
     (if cs then fnmatch nm pattern else fnmatch (lower nm) (lower pattern))"

definition glob :: "bool \<Rightarrow> fs \<Rightarrow> path \<Rightarrow> string \<Rightarrow> path list" where
  "glob cs fs p pattern =
     filter (\<lambda>q. length q = Suc (length p) \<and> take (length p) q = p \<and>
                 glob_match cs (name q) pattern)
       (map fst fs)"

definition rglob :: "bool \<Rightarrow> fs \<Rightarrow> path \<Rightarrow> string \<Rightarrow> path list" where
  "rglob cs fs p pattern =
     filter (\<lambda>q. length p < length q \<and> take (length p) q = p \<and>
                 list_all (\<lambda>k. is_dir fs (take k q)) [Suc (length p)..<length q] \<and>
                 glob_match cs (name q) pattern)
       (map fst fs)"

section \<open>\<open>core.py\<close>\<close>

definition ensure_pdf_suffix :: "string \<Rightarrow> string" where
  "ensure_pdf_suffix nm = (if endswith (lower nm) ''.pdf'' then nm else nm @ ''.pdf'')"

subsection \<open>\<open>split_pdf\<close>\<close>

text \<open>\<open>not password\<close>: no password, or the empty one.\<close>

fun falsy_str :: "string option \<Rightarrow> bool" where
  "falsy_str None = True"
| "falsy_str (Some s) = (s = [])"

definition default_pattern :: string where
  "default_pattern = ''{stem}_part_{i:02d}.pdf''"

text \<open>
  The body of the loop over \<open>idx\<close> (lines 72 to 96): the new state of the file system
  and the path written, or the exception.
\<close>

definition split_chunk ::
  "formatter \<Rightarrow> pdf \<Rightarrow> int \<Rightarrow> int \<Rightarrow> string \<Rightarrow> string \<Rightarrow> path \<Rightarrow> bool \<Rightarrow> bool \<Rightarrow>
     fs \<Rightarrow> int \<Rightarrow> fs \<times> (error + path)" where
  "split_chunk fmt src max_pages total' stm pattern output_dir keep_metadata overwrite fs idx =
     (let start0 = idx * max_pages;
          end0 = min (start0 + max_pages) total' - 1;
          start1 = start0 + 1;
          end1 = end0 + 1
      in case fmt pattern stm (idx + 1) idx start1 end1 of
           Inl e \<Rightarrow> (fs, Inl e)
         | Inr out_name \<Rightarrow>
             (let out_path = joinpath output_dir (ensure_pdf_suffix out_name)
              in if path_exists fs out_path \<and> \<not> overwrite
                 then (fs, Inl (FileExistsError
                         (''Output exists: '' @ path_str out_path @
                          ''. Use overwrite=True to replace.'')))
                 else (let part_doc = insert_pdf fitz_new src start0 end0;
                           part_doc' =
                             (if keep_metadata
                              then (case set_metadata part_doc (metadata src) of
                                      Inl e \<Rightarrow> part_doc
                                    | Inr d \<Rightarrow> d)
                              else part_doc)
                       in case save fs out_path part_doc' of
                            Inl e \<Rightarrow> (fs, Inl e)
                          | Inr fs' \<Rightarrow> (fs', Inr out_path))))"

fun split_loop ::
  "(fs \<Rightarrow> int \<Rightarrow> fs \<times> (error + path)) \<Rightarrow> fs \<Rightarrow> path list \<Rightarrow> int list \<Rightarrow>
     fs \<times> (error + path list)" where
  "split_loop body fs outputs [] = (fs, Inr outputs)"
| "split_loop body fs outputs (idx # rest) =
     (case body fs idx of
        (fs', Inl e) \<Rightarrow> (fs', Inl e)
      | (fs', Inr out_path) \<Rightarrow> split_loop body fs' (outputs @ [out_path]) rest)"

text \<open>Lines 61 to 65: the password check on the opened source.\<close>

definition check_password :: "pdf \<Rightarrow> string option \<Rightarrow> error + unit" where
  "check_password src password =
     (if is_encrypted src
      then (if falsy_str password
            then Inl (ValueError ''PDF is encrypted: please provide a password.'')
            else if \<not> authenticate src (the password)
            then Inl (ValueError ''Wrong password for encrypted PDF.'')
            else Inr ())
      else Inr ())"

text \<open>Lines 67 to 98: the page count, the number of parts and the loop.\<close>

definition split_doc ::
  "formatter \<Rightarrow> fs \<Rightarrow> pdf \<Rightarrow> path \<Rightarrow> int \<Rightarrow> path \<Rightarrow> string \<Rightarrow> bool \<Rightarrow> bool \<Rightarrow>
     fs \<times> (error + path list)" where
  "split_doc fmt fs src input_pdf max_pages output_dir pattern keep_metadata overwrite =
     (case truediv (page_count src) max_pages of
        Inl e \<Rightarrow> (fs, Inl e)
      | Inr q \<Rightarrow>
          (let parts = math_ceil q;
               stm = stem input_pdf
           in split_loop
                (split_chunk fmt src max_pages (page_count src) stm pattern output_dir
                   keep_metadata overwrite)
                fs [] (py_range parts)))"

text \<open>\<open>output_dir\<close> as lines 48 to 51 leave it, and \<open>pattern\<close> as line 57 does.\<close>

definition output_dir_of :: "path \<Rightarrow> path_arg option \<Rightarrow> path" where
  "output_dir_of input_pdf output_dir =
     (case output_dir of None \<Rightarrow> parent input_pdf | Some d \<Rightarrow> Path d)"

definition pattern_of :: "string option \<Rightarrow> string" where
  "pattern_of output_pattern =
     (if falsy_str output_pattern then default_pattern else the output_pattern)"

definition split_pdf ::
  "formatter \<Rightarrow> fs \<Rightarrow> path \<Rightarrow> int \<Rightarrow> path_arg option \<Rightarrow> string option \<Rightarrow> string option \<Rightarrow>
     bool \<Rightarrow> bool \<Rightarrow> fs \<times> (error + path list)" where
  "split_pdf fmt fs input_pdf max_pages output_dir output_pattern password keep_metadata
       overwrite =
     (case mkdir fs (output_dir_of input_pdf output_dir) of
        Inl e \<Rightarrow> (fs, Inl e)
      | Inr fs1 \<Rightarrow>
          if max_pages \<le> 0 then (fs1, Inl (ValueError ''max_pages must be > 0''))
          else
            (case fitz_open fs1 input_pdf of
               Inl e \<Rightarrow> (fs1, Inl e)
             | Inr src \<Rightarrow>
                 (case check_password src password of
                    Inl e \<Rightarrow> (fs1, Inl e)
                  | Inr u \<Rightarrow>
                      split_doc fmt fs1 src input_pdf max_pages
                        (output_dir_of input_pdf output_dir) (pattern_of output_pattern)
                        keep_metadata overwrite)))"

subsection \<open>\<open>find_pdfs\<close>\<close>

text \<open>
  The second loop of \<open>find_pdfs\<close>: \<open>seen\<close> holds the resolved paths met so far.
  \<open>Path.resolve\<close> raises on a loop of links.
\<close>

fun unique_loop :: "fs \<Rightarrow> path list \<Rightarrow> path list \<Rightarrow> path list \<Rightarrow> error + path list" where
  "unique_loop fs seen unique [] = Inr unique"
| "unique_loop fs seen unique (f # found) =
     (case resolve fs f of
        None \<Rightarrow> Inl (RuntimeError ''Symlink loop'')
      | Some r \<Rightarrow>
          if r \<notin> set seen then unique_loop fs (seen @ [r]) (unique @ [f]) found
          else unique_loop fs seen unique found)"

definition find_in :: "bool \<Rightarrow> fs \<Rightarrow> bool \<Rightarrow> string \<Rightarrow> path \<Rightarrow> path list" where
  "find_in cs fs recursive pattern p =
     (if is_file fs p \<and> lower (suffix p) = ''.pdf'' then [p]
      else if is_dir fs p
        then filter (is_file fs) ((if recursive then rglob else glob) cs fs p pattern)
      else [])"

definition find_pdfs :: "bool \<Rightarrow> fs \<Rightarrow> path list \<Rightarrow> bool \<Rightarrow> string \<Rightarrow> error + path list" where
  "find_pdfs cs fs paths recursive pattern =
     unique_loop fs [] [] (concat (map (find_in cs fs recursive pattern) paths))"

subsection \<open>\<open>split_many\<close>\<close>

fun many_loop ::
  "(fs \<Rightarrow> path \<Rightarrow> fs \<times> (error + path list)) \<Rightarrow> fs \<Rightarrow> path list \<Rightarrow> path list \<Rightarrow>
     fs \<times> (error + path list)" where
  "many_loop body fs outputs [] = (fs, Inr outputs)"
| "many_loop body fs outputs (pdf # rest) =
     (case body fs pdf of
        (fs', Inl e) \<Rightarrow> (fs', Inl e)
      | (fs', Inr outs) \<Rightarrow> many_loop body fs' (outputs @ outs) rest)"

definition split_one ::
  "formatter \<Rightarrow> int \<Rightarrow> path_arg option \<Rightarrow> string option \<Rightarrow> string option \<Rightarrow> bool \<Rightarrow> bool \<Rightarrow>
     fs \<Rightarrow> path \<Rightarrow> fs \<times> (error + path list)" where
  "split_one fmt max_pages output_dir output_pattern password keep_metadata overwrite fs pdf =
     (let out_dir = (if truthy_arg output_dir then Path (the output_dir) else parent pdf)
      in split_pdf fmt fs pdf max_pages (Some (PathObj out_dir)) output_pattern password
           keep_metadata overwrite)"

definition split_many ::
  "formatter \<Rightarrow> bool \<Rightarrow> fs \<Rightarrow> path list \<Rightarrow> int \<Rightarrow> path_arg option \<Rightarrow> string option \<Rightarrow> bool \<Rightarrow>
     string option \<Rightarrow> bool \<Rightarrow> bool \<Rightarrow> fs \<times> (error + path list)" where
  "split_many fmt cs fs inputs max_pages output_dir output_pattern recursive password
       keep_metadata overwrite =
     (case find_pdfs cs fs inputs recursive ''*.pdf'' of
        Inl e \<Rightarrow> (fs, Inl e)
      | Inr pdfs \<Rightarrow>
          many_loop
            (split_one fmt max_pages output_dir output_pattern password keep_metadata overwrite)
            fs [] pdfs)"

section \<open>Observations and test data\<close>


text \<open>
  \<open>_make_pdf(path, pages)\<close> of \<open>tests/test_split.py\<close> builds a document of \<open>n\<close> pages;
  page \<open>k\<close> stands for the page with the text \<open>Page k\<close>. \<open>demo_fs\<close> is the temporary
  directory of \<open>test_split_basic\<close> after \<open>_make_pdf(src, 23)\<close>.
\<close>

definition make_pdf :: "nat \<Rightarrow> pdf" where
  "make_pdf n = \<lparr>pages = [1..<Suc n], metadata = [(''format'', ''PDF 1.7'')],
     is_encrypted = False, passwords = []\<rparr>"

definition demo_fs :: fs where
  "demo_fs = [([''tmp''], Dir), ([''tmp'', ''demo.pdf''], File (Some (make_pdf 23)))]"



text \<open>
  An encrypted document of three pages that accepts the passwords \<open>secret\<close> and the
  empty string, beside an unencrypted copy of it.
\<close>

definition locked_pdf :: pdf where
  "locked_pdf = (make_pdf 3)\<lparr>is_encrypted := True, passwords := [''secret'', []]\<rparr>"

definition locked_fs :: fs where
  "locked_fs = [([''in''], Dir), ([''in'', ''doc.pdf''], File (Some locked_pdf)),
                ([''plain''], Dir), ([''plain'', ''doc.pdf''], File (Some (make_pdf 3)))]"

text \<open>
  Names for the parts of the loop body: the path the formatter gives chunk \<open>idx\<close>
  (lines 77 to 80), the document written for it (lines 87 to 93) and the exception of
  line 83.
\<close>

definition chunk_doc :: "pdf \<Rightarrow> int \<Rightarrow> int \<Rightarrow> bool \<Rightarrow> int \<Rightarrow> pdf" where
  "chunk_doc src max_pages total' keep_metadata idx =
     (let part_doc = insert_pdf fitz_new src (idx * max_pages)
                       (min (idx * max_pages + max_pages) total' - 1)
      in if keep_metadata
         then (case set_metadata part_doc (metadata src) of Inl e \<Rightarrow> part_doc | Inr d \<Rightarrow> d)
         else part_doc)"

definition chunk_path ::
  "formatter \<Rightarrow> int \<Rightarrow> int \<Rightarrow> string \<Rightarrow> string \<Rightarrow> path \<Rightarrow> int \<Rightarrow> error + path" where
  "chunk_path fmt max_pages total' stm pattern output_dir idx =
     (case fmt pattern stm (idx + 1) idx (idx * max_pages + 1)
             (min (idx * max_pages + max_pages) total') of
        Inl e \<Rightarrow> Inl e
      | Inr out_name \<Rightarrow> Inr (joinpath output_dir (ensure_pdf_suffix out_name)))"

definition exists_error :: "path \<Rightarrow> error" where
  "exists_error out_path =
     FileExistsError (''Output exists: '' @ path_str out_path @
       ''. Use overwrite=True to replace.'')"

text \<open>
  A document of five pages whose second part, for \<open>max_pages = 2\<close>, is already there.
\<close>

definition blocked_fs :: fs where
  "blocked_fs = [([''tmp''], Dir), ([''tmp'', ''doc.pdf''], File (Some (make_pdf 5))),
                 ([''tmp'', ''doc_part_02.pdf''], File None)]"

text \<open>A document of three pages beside a link to a file that is not there.\<close>

definition dangling_fs :: fs where
  "dangling_fs = [([''tmp''], Dir), ([''tmp'', ''doc.pdf''], File (Some (make_pdf 3))),
                  ([''tmp'', ''doc_part_01.pdf''], Link [''tmp'', ''doc_part_02.pdf''])]"

text \<open>A document of one page, alone in its directory.\<close>

definition one_page_fs :: fs where
  "one_page_fs = [([''tmp''], Dir), ([''tmp'', ''one.pdf''], File (Some (make_pdf 1)))]"

text \<open>
  The directory of the discovery example: \<open>a.pdf\<close>, \<open>b.PDF\<close>, \<open>c.txt\<close> and a link to
  \<open>a.pdf\<close>.
\<close>

definition discover_fs :: fs where
  "discover_fs =
     [([''d''], Dir),
      ([''d'', ''a.pdf''], File (Some (make_pdf 1))),
      ([''d'', ''b.PDF''], File (Some (make_pdf 1))),
      ([''d'', ''c.txt''], File None),
      ([''d'', ''a_link.pdf''], Link [''d'', ''a.pdf''])]"

text \<open>
  Whether \<open>set_metadata\<close> accepts the dictionary of a document, and the Info entries of
  a document.
\<close>

definition accepts_metadata :: "pdf \<Rightarrow> bool" where
  "accepts_metadata src = list_all (\<lambda>(k, v). k \<in> set metadata_keys) (metadata src)"






text \<open>A directory with a PDF of three pages and a file that PyMuPDF cannot open.\<close>

definition batch_fs :: fs where
  "batch_fs = [([''in''], Dir), ([''in'', ''a.pdf''], File (Some (make_pdf 3))),
               ([''in'', ''b.pdf''], File None)]"

text \<open>\<open>out_dir\<close> of line 148, for the file \<open>pdf\<close>.\<close>

definition out_dir_for :: "path_arg option \<Rightarrow> path \<Rightarrow> path" where
  "out_dir_for output_dir pdf = (if truthy_arg output_dir then Path (the output_dir) else parent pdf)"

section \<open>The file system operations\<close>


lemma not_link_cases: "(\<forall>t. x \<noteq> Some (Link t)) \<Longrightarrow> (case x of Some (Link t) \<Rightarrow> a t | _ \<Rightarrow> b) = b"
  by (auto split: option.splits node.splits)

lemma readlink_update:
  assumes "\<forall>t. v \<noteq> Link t" "\<forall>t. map_of fs r \<noteq> Some (Link t)"
  shows "readlink n (AList.update r v fs) p = readlink n fs p"
  using assms
proof (induction n arbitrary: p)
  case 0
  then show ?case by (cases "p = r") (auto simp: update_conv' split: option.splits node.splits)
next
  case (Suc n)
  then show ?case by (cases "p = r") (auto simp: update_conv' split: option.splits node.splits)
qed

lemma resolve_update:
  "\<forall>t. v \<noteq> Link t \<Longrightarrow> \<forall>t. map_of fs r \<noteq> Some (Link t) \<Longrightarrow>
     resolve (AList.update r v fs) p = resolve fs p"
  by (simp add: resolve_def readlink_update)

lemma stat_update:
  assumes "\<forall>t. v \<noteq> Link t" "\<forall>t. map_of fs r \<noteq> Some (Link t)" "r \<noteq> []"
  shows "stat (AList.update r v fs) p = (if resolve fs p = Some r then Some v else stat fs p)"
  using assms by (auto simp: stat_def resolve_update update_conv' split: option.splits)

lemma readlink_not_link: "readlink n fs p = Some r \<Longrightarrow> map_of fs r \<noteq> Some (Link t)"
  by (induction n arbitrary: p) (auto split: option.splits node.splits)

lemma resolve_not_link: "resolve fs p = Some r \<Longrightarrow> map_of fs r \<noteq> Some (Link t)"
  unfolding resolve_def by (rule readlink_not_link)


lemma readlink_fresh: "map_of fs p = None \<Longrightarrow> readlink n fs p = Some p"
  by (cases n) auto

lemma resolve_fresh: "map_of fs p = None \<Longrightarrow> resolve fs p = Some p"
  by (simp add: resolve_def readlink_fresh)

lemma stat_create:
  assumes "map_of fs q = None" "\<forall>t. v \<noteq> Link t" "q \<noteq> []"
  shows "stat (AList.update q v fs) p = (if resolve fs p = Some q then Some v else stat fs p)"
  using assms by (intro stat_update) auto

lemma stat_create_mono:
  assumes "map_of fs q = None" "\<forall>t. v \<noteq> Link t" "q \<noteq> []" "stat fs p = Some n"
  shows "stat (AList.update q v fs) p = Some n"
proof -
  have "resolve fs p \<noteq> Some q"
    using assms by (auto simp: stat_def)
  then show ?thesis using assms by (simp add: stat_create)
qed

lemma is_dir_create_mono:
  "map_of fs q = None \<Longrightarrow> q \<noteq> [] \<Longrightarrow> is_dir fs p \<Longrightarrow> is_dir (AList.update q Dir fs) p"
  by (auto simp: is_dir_def stat_create_mono split: option.splits node.splits)

lemma is_dir_created:
  "map_of fs q = None \<Longrightarrow> q \<noteq> [] \<Longrightarrow> is_dir (AList.update q Dir fs) q"
  by (simp add: is_dir_def stat_create resolve_fresh)

lemma mkdir_parents_mono:
  "mkdir_parents fs q cs = Inr fs' \<Longrightarrow> is_dir fs p \<Longrightarrow> is_dir fs' p"
proof (induction cs arbitrary: fs q)
  case Nil
  then show ?case by simp
next
  case (Cons c cs)
  show ?case
  proof (cases "is_dir fs (q @ [c])")
    case True
    with Cons show ?thesis by simp
  next
    case False
    with Cons.prems have fresh: "map_of fs (q @ [c]) = None"
      and rec: "mkdir_parents (AList.update (q @ [c]) Dir fs) (q @ [c]) cs = Inr fs'"
      by (auto split: if_splits)
    from fresh Cons.prems(2) have "is_dir (AList.update (q @ [c]) Dir fs) p"
      by (simp add: is_dir_create_mono)
    with Cons.IH [OF rec] show ?thesis .
  qed
qed

lemma mkdir_parents_dirs:
  "mkdir_parents fs q cs = Inr fs' \<Longrightarrow> 0 < k \<Longrightarrow> k \<le> length cs \<Longrightarrow>
     is_dir fs' (q @ take k cs)"
proof (induction cs arbitrary: fs q k)
  case Nil
  then show ?case by simp
next
  case (Cons c cs)
  obtain j where k: "k = Suc j" using Cons.prems(2) by (cases k) auto
  define fs2 where "fs2 = (if is_dir fs (q @ [c]) then fs else AList.update (q @ [c]) Dir fs)"
  have rec: "mkdir_parents fs2 (q @ [c]) cs = Inr fs'"
    using Cons.prems(1) by (auto simp: fs2_def split: if_splits)
  have here: "is_dir fs2 (q @ [c])"
    using Cons.prems(1) by (auto simp: fs2_def is_dir_created split: if_splits)
  show ?case
  proof (cases j)
    case 0
    with k here mkdir_parents_mono [OF rec] show ?thesis by simp
  next
    case (Suc i)
    with k Cons.prems(3) Cons.IH [OF rec, of j] show ?thesis by simp
  qed
qed


lemma mkdir_dirs:
  "mkdir fs p = Inr fs' \<Longrightarrow> 0 < k \<Longrightarrow> k \<le> length p \<Longrightarrow> is_dir fs' (take k p)"
  using mkdir_parents_dirs [of fs "[]" p fs' k] by (simp add: mkdir_def)


lemma split_pdf_mkdir_fails:
  "mkdir fs (output_dir_of input_pdf output_dir) = Inl e \<Longrightarrow>
     split_pdf fmt fs input_pdf max_pages output_dir output_pattern password keep_metadata
       overwrite = (fs, Inl e)"
  by (simp add: split_pdf_def)

lemma split_pdf_invalid:
  "mkdir fs (output_dir_of input_pdf output_dir) = Inr fs1 \<Longrightarrow> max_pages \<le> 0 \<Longrightarrow>
     split_pdf fmt fs input_pdf max_pages output_dir output_pattern password keep_metadata
       overwrite = (fs1, Inl (ValueError ''max_pages must be > 0''))"
  by (simp add: split_pdf_def)

section \<open>Argument validation\<close>






text \<open>
  Claim C9. With \<open>max_pages \<le> 0\<close>, the output directory and every directory above it
  exist in the state in which \<open>ValueError ''max_pages must be > 0''\<close> is raised: line 52
  runs before line 54. Where the directory did not exist before, the failed call has
  changed the file system.
\<close>

theorem split_pdf_creates_output_dir_first:
  assumes "max_pages \<le> 0"
    and "mkdir fs (output_dir_of input_pdf output_dir) = Inr fs1"
  shows "split_pdf fmt fs input_pdf max_pages output_dir output_pattern password
           keep_metadata overwrite = (fs1, Inl (ValueError ''max_pages must be > 0''))
         \<and> (\<forall>k. 0 < k \<and> k \<le> length (output_dir_of input_pdf output_dir) \<longrightarrow>
               is_dir fs1 (take k (output_dir_of input_pdf output_dir)))
         \<and> (output_dir_of input_pdf output_dir \<noteq> [] \<and>
              \<not> is_dir fs (output_dir_of input_pdf output_dir) \<longrightarrow> fs1 \<noteq> fs)"
proof -
  have "is_dir fs1 (output_dir_of input_pdf output_dir)"
    if "output_dir_of input_pdf output_dir \<noteq> []"
    using mkdir_dirs [OF assms(2), of "length (output_dir_of input_pdf output_dir)"] that
    by simp
  then show ?thesis
    using assms by (auto simp: split_pdf_invalid mkdir_dirs)
qed

theorem split_pdf_creates_output_dir_first_witness:
  "\<not> is_dir demo_fs [''out''] \<and> \<not> is_dir demo_fs [''out'', ''x''] \<and>
   (\<exists>fs1. split_pdf str_format demo_fs [''tmp'', ''demo.pdf''] (- 1) (Some (Str ''out/x''))
             None None True False = (fs1, Inl (ValueError ''max_pages must be > 0''))
          \<and> is_dir fs1 [''out''] \<and> is_dir fs1 [''out'', ''x''] \<and> fs1 \<noteq> demo_fs)"
proof -
  have le: "(- 1 :: int) \<le> 0" by simp
  have out: "output_dir_of [''tmp'', ''demo.pdf''] (Some (Str ''out/x'')) = [''out'', ''x'']"
    by code_simp
  have mk: "mkdir demo_fs (output_dir_of [''tmp'', ''demo.pdf''] (Some (Str ''out/x'')))
              = Inr (demo_fs @ [([''out''], Dir), ([''out'', ''x''], Dir)])"
    by code_simp
  have before: "\<not> is_dir demo_fs [''out'']" "\<not> is_dir demo_fs [''out'', ''x'']"
    by code_simp+
  note inst = split_pdf_creates_output_dir_first [OF le mk, of str_format None None True False]
  from inst have all: "\<And>k. 0 < k \<Longrightarrow> k \<le> 2 \<Longrightarrow>
      is_dir (demo_fs @ [([''out''], Dir), ([''out'', ''x''], Dir)]) (take k [''out'', ''x''])"
    unfolding out by simp
  from all [of 1] all [of 2] inst before show ?thesis
    unfolding out by auto
qed

section \<open>Passwords\<close>

text \<open>
  Claim C10. The empty password behaves as no password in every call. On an encrypted
  source it gives the missing-password error, whatever \<open>authenticate\<close> would have
  answered for the empty string.
\<close>

theorem split_pdf_empty_password:
  "split_pdf fmt fs input_pdf max_pages output_dir output_pattern (Some []) keep_metadata
     overwrite =
   split_pdf fmt fs input_pdf max_pages output_dir output_pattern None keep_metadata overwrite
   \<and> (\<forall>fs1 src. mkdir fs (output_dir_of input_pdf output_dir) = Inr fs1 \<and> 0 < max_pages \<and>
         fitz_open fs1 input_pdf = Inr src \<and> is_encrypted src \<longrightarrow>
         split_pdf fmt fs input_pdf max_pages output_dir output_pattern (Some []) keep_metadata
           overwrite = (fs1, Inl (ValueError ''PDF is encrypted: please provide a password.'')))"
  by (auto simp: split_pdf_def check_password_def split: sum.splits)

theorem split_pdf_empty_password_witness:
  "authenticate locked_pdf [] \<and>
   split_pdf str_format locked_fs [''in'', ''doc.pdf''] 2 None None (Some []) True False
     = (locked_fs, Inl (ValueError ''PDF is encrypted: please provide a password.''))"
proof -
  have mk: "mkdir locked_fs (output_dir_of [''in'', ''doc.pdf''] None) = Inr locked_fs"
    by code_simp
  have op: "fitz_open locked_fs [''in'', ''doc.pdf''] = Inr locked_pdf"
    by code_simp
  have enc: "is_encrypted locked_pdf" "authenticate locked_pdf []"
    by code_simp+
  have pos: "(0::int) < 2" by simp
  from split_pdf_empty_password [of str_format locked_fs "[''in'', ''doc.pdf'']" 2 None None
      True False] mk op enc pos
  show ?thesis by blast
qed




lemma split_pdf_opened:
  "mkdir fs (output_dir_of input_pdf output_dir) = Inr fs1 \<Longrightarrow> 0 < max_pages \<Longrightarrow>
   fitz_open fs1 input_pdf = Inr src \<Longrightarrow> check_password src password = Inr () \<Longrightarrow>
     split_pdf fmt fs input_pdf max_pages output_dir output_pattern password keep_metadata
       overwrite =
     split_doc fmt fs1 src input_pdf max_pages (output_dir_of input_pdf output_dir)
       (pattern_of output_pattern) keep_metadata overwrite"
  by (simp add: split_pdf_def)

lemma split_pdf_check_fails:
  "mkdir fs (output_dir_of input_pdf output_dir) = Inr fs1 \<Longrightarrow> 0 < max_pages \<Longrightarrow>
   fitz_open fs1 input_pdf = Inr src \<Longrightarrow> check_password src password = Inl e \<Longrightarrow>
     split_pdf fmt fs input_pdf max_pages output_dir output_pattern password keep_metadata
       overwrite = (fs1, Inl e)"
  by (simp add: split_pdf_def)



section \<open>The number of parts\<close>

text \<open>
  \<open>math.ceil(total / max_pages)\<close> goes through a float. The rounded quotient has the
  ceiling of the exact one whenever \<open>total\<close> is below \<open>2 ^ 53\<close> and the quotient is
  above \<open>2 ^ - 1075\<close>, half the smallest positive float.
\<close>

lemma round_half_even_le:
  assumes "0 < d" "n \<le> N * d"
  shows "round_half_even n d \<le> N"
proof -
  define q where "q = n div d"
  define r where "r = n mod d"
  have n: "n = q * d + r" by (simp add: q_def r_def)
  have r: "0 \<le> r" "r < d" using assms(1) by (simp_all add: r_def)
  have qN: "q \<le> N"
  proof (rule ccontr)
    assume "\<not> q \<le> N"
    then have "(N + 1) * d \<le> q * d"
      using assms(1) by (intro mult_right_mono) simp_all
    with n r assms show False by (simp add: algebra_simps)
  qed
  have "q + 1 \<le> N" if "0 < r"
  proof (rule ccontr)
    assume "\<not> q + 1 \<le> N"
    with qN have "q = N" by simp
    with n that assms(2) show False by simp
  qed
  with qN r assms(1) show ?thesis
    by (auto simp: round_half_even_def Let_def q_def r_def)
qed

lemma round_half_even_ge:
  assumes "0 < d" "(2 * N - 1) * d < 2 * n"
  shows "N \<le> round_half_even n d"
proof (cases "N \<le> n div d")
  case True
  then show ?thesis by (simp add: round_half_even_def Let_def)
next
  case False
  define q where "q = n div d"
  define r where "r = n mod d"
  have n: "n = q * d + r" by (simp add: q_def r_def)
  have r: "0 \<le> r" "r < d" using assms(1) by (simp_all add: r_def)
  from False have qN: "q + 1 \<le> N" by (simp add: q_def)
  have "(2 * q + 1) * d \<le> (2 * N - 1) * d"
    using qN assms(1) by (intro mult_right_mono) simp_all
  with assms(2) n have up: "d < 2 * r" by (simp add: algebra_simps)
  have "N \<le> q + 1"
  proof (rule ccontr)
    assume "\<not> N \<le> q + 1"
    then have "q + 2 \<le> N" by simp
    then have "(2 * q + 3) * d \<le> (2 * N - 1) * d"
      using assms(1) by (intro mult_right_mono) simp_all
    with assms(2) n have "3 * d < 2 * r" by (simp add: algebra_simps)
    with r assms(1) show False by simp
  qed
  with up show ?thesis
    by (simp add: round_half_even_def Let_def q_def r_def)
qed

lemma neg_div_ceiling:
  fixes k m P :: int
  assumes "0 < P" "k * P < m" "m \<le> (k + 1) * P"
  shows "- ((- m) div P) = k + 1"
proof -
  have "(- m) div P = - (k + 1)"
    by (rule int_div_pos_eq [where r = "(k + 1) * P - m"])
       (use assms in \<open>simp_all add: algebra_simps\<close>)
  then show ?thesis by simp
qed

lemma bitlen_nat:
  assumes "0 < a"
  obtains la where "bitlen a = int (Suc la)" "2 ^ la \<le> a" "a < 2 ^ Suc la"
proof -
  have "1 \<le> bitlen a" using assms by (simp add: bitlen_alt_def)
  then obtain la where la: "bitlen a = int (Suc la)"
    by (metis Suc_nat_eq_nat_zadd1 add.commute diff_ge_0_iff_ge int_nat_eq diff_add_cancel of_nat_Suc)
  have n: "nat (bitlen a - 1) = la" "nat (bitlen a) = Suc la"
    using la by simp_all
  from bitlen_bounds [OF assms] have "2 ^ la \<le> a" "a < 2 ^ Suc la"
    unfolding n by simp_all
  with la that show thesis by blast
qed

lemma quot_exp_lower:
  assumes "0 < a" "0 < b"
  shows "b * 2 ^ nat (quot_exp a b) \<le> a * 2 ^ nat (- quot_exp a b)"
proof -
  obtain la where la: "bitlen a = int (Suc la)" "2 ^ la \<le> a" "a < 2 ^ Suc la"
    using assms(1) by (rule bitlen_nat)
  obtain lb where lb: "bitlen b = int (Suc lb)" "2 ^ lb \<le> b" "b < 2 ^ Suc lb"
    using assms(2) by (rule bitlen_nat)
  show ?thesis
  proof (cases "b * 2 ^ nat (bitlen a - bitlen b) \<le> a * 2 ^ nat (- (bitlen a - bitlen b))")
    case True
    then show ?thesis by (simp add: quot_exp_def Let_def)
  next
    case False
    then have e: "quot_exp a b = int la - int lb - 1"
      by (simp add: quot_exp_def Let_def la lb)
    show ?thesis
    proof (cases "lb < la")
      case True
      then obtain j where j: "la = Suc (lb + j)"
        by (metis less_iff_Suc_add add_Suc_right)
      have "b * 2 ^ j \<le> 2 ^ Suc lb * 2 ^ j"
        using lb(3) by (intro mult_right_mono) simp_all
      also have "\<dots> = 2 ^ la" by (simp add: j power_add)
      finally show ?thesis using la(2) by (simp add: e j)
    next
      case False
      then obtain j where j: "lb = la + j"
        by (metis le_iff_add not_less)
      have "b \<le> 2 ^ la * 2 ^ Suc j"
        using lb(3) by (simp add: j power_add)
      also have "\<dots> \<le> a * 2 ^ Suc j"
        using la(2) by (intro mult_right_mono) simp_all
      finally show ?thesis by (simp add: e j nat_add_distrib)
    qed
  qed
qed

lemma quot_exp_upper:
  assumes "0 < a" "0 < b"
  shows "a * 2 ^ nat (- (quot_exp a b + 1)) < b * 2 ^ nat (quot_exp a b + 1)"
proof -
  obtain la where la: "bitlen a = int (Suc la)" "2 ^ la \<le> a" "a < 2 ^ Suc la"
    using assms(1) by (rule bitlen_nat)
  obtain lb where lb: "bitlen b = int (Suc lb)" "2 ^ lb \<le> b" "b < 2 ^ Suc lb"
    using assms(2) by (rule bitlen_nat)
  show ?thesis
  proof (cases "b * 2 ^ nat (bitlen a - bitlen b) \<le> a * 2 ^ nat (- (bitlen a - bitlen b))")
    case False
    then show ?thesis by (simp add: quot_exp_def Let_def)
  next
    case True
    then have e: "quot_exp a b = int la - int lb"
      by (simp add: quot_exp_def Let_def la lb)
    show ?thesis
    proof (cases "lb \<le> la")
      case True
      then obtain j where j: "la = lb + j"
        by (metis le_iff_add)
      have "a < 2 ^ lb * 2 ^ Suc j"
        using la(3) by (simp add: j power_add)
      also have "\<dots> \<le> b * 2 ^ Suc j"
        using lb(2) by (intro mult_right_mono) simp_all
      finally show ?thesis by (simp add: e j nat_add_distrib)
    next
      case False
      then obtain j where j: "lb = Suc (la + j)"
        by (metis less_iff_Suc_add add_Suc_right not_le)
      have "a * 2 ^ j < 2 ^ Suc la * 2 ^ j"
        using la(3) by (intro mult_strict_right_mono) simp_all
      also have "\<dots> = 2 ^ lb" by (simp add: j power_add)
      finally show ?thesis using lb(2) by (simp add: e j)
    qed
  qed
qed

lemma ceil_div_bounds:
  fixes a b :: int
  assumes "0 < b"
  shows "((a + b - 1) div b - 1) * b < a" and "a \<le> ((a + b - 1) div b - 1 + 1) * b"
proof -
  define c where "c = (a + b - 1) div b"
  define r where "r = (a + b - 1) mod b"
  have eq: "a + b - 1 = c * b + r" by (simp add: c_def r_def)
  have r: "0 \<le> r" "r < b" using assms by (simp_all add: r_def)
  from eq r show "((a + b - 1) div b - 1) * b < a"
    unfolding c_def [symmetric] by (simp add: algebra_simps)
  from eq r show "a \<le> ((a + b - 1) div b - 1 + 1) * b"
    unfolding c_def [symmetric] by (simp add: algebra_simps)
qed

lemma truediv_pos_small:
  assumes a: "0 < a" "a < 2 ^ 53" and b: "0 < b"
  shows "quot_exp a b \<le> 52"
    and "truediv_pos a b =
      Inr (Float (round_half_even (a * 2 ^ nat (52 - max (quot_exp a b) (- 1022))) b)
            (max (quot_exp a b) (- 1022) - 52))"
proof -
  define e where "e = quot_exp a b"
  show le: "quot_exp a b \<le> 52"
  proof (rule ccontr)
    assume "\<not> quot_exp a b \<le> 52"
    then have big: "53 \<le> e" by (simp add: e_def)
    then have "nat (- e) = 0" by simp
    with quot_exp_lower [OF a(1) b] have "b * 2 ^ nat e \<le> a"
      by (simp add: e_def)
    moreover have "(2::int) ^ 53 \<le> 2 ^ nat e"
      using big by (intro power_increasing) simp_all
    moreover have "(1 * 2 ^ nat e :: int) \<le> b * 2 ^ nat e"
      using b by (intro mult_right_mono) simp_all
    ultimately show False using a(2) by simp
  qed
  have sh: "nat (max e (- 1022) - 52) = 0"
    "nat (- (max e (- 1022) - 52)) = nat (52 - max e (- 1022))"
    using le by (simp_all add: e_def)
  have ne: "\<not> 1023 < e" "e \<noteq> 1023"
    using le by (simp_all add: e_def)
  show "truediv_pos a b =
      Inr (Float (round_half_even (a * 2 ^ nat (52 - max (quot_exp a b) (- 1022))) b)
            (max (quot_exp a b) (- 1022) - 52))"
    unfolding truediv_pos_def Let_def e_def [symmetric] sh by (simp add: ne)
qed

lemma round_window:
  fixes a b :: int
  assumes a: "0 < a" "a < 2 ^ 53" and b: "0 < b" "b < a * 2 ^ 1075"
    and s: "s = nat (52 - max (quot_exp a b) (- 1022))"
    and k: "k = (a + b - 1) div b - 1"
  shows "k * 2 ^ s < round_half_even (a * 2 ^ s) b"
    and "round_half_even (a * 2 ^ s) b \<le> (k + 1) * 2 ^ s"
proof -
  define e where "e = quot_exp a b"
  define P :: int where "P = 2 ^ s"
  have P: "1 \<le> P" by (simp add: P_def)
  have e52: "e \<le> 52"
    using truediv_pos_small(1) [OF a b(1)] by (simp add: e_def)
  have lo: "k * b < a" and hi: "a \<le> (k + 1) * b"
    using ceil_div_bounds [OF b(1), of a] by (simp_all add: k)
  have k0: "0 \<le> k"
  proof (rule ccontr)
    assume "\<not> 0 \<le> k"
    then have "k + 1 \<le> 0" by simp
    then have "(k + 1) * b \<le> 0 * b"
      using b(1) by (intro mult_right_mono) simp_all
    with hi a(1) show False by simp
  qed
  have "a * P \<le> ((k + 1) * b) * P"
    using hi P by (intro mult_right_mono) simp_all
  then have "a * P \<le> ((k + 1) * P) * b"
    by (simp add: algebra_simps)
  from round_half_even_le [OF b(1) this]
  show "round_half_even (a * 2 ^ s) b \<le> (k + 1) * 2 ^ s"
    by (simp add: P_def)
  have key: "b < 2 * P * (a - k * b)"
  proof (cases "k = 0")
    case True
    have "b < 2 * P * a"
    proof (cases "e < - 1022")
      case True
      then have "s = 1074" by (simp add: s e_def [symmetric])
      then have "2 * P = 2 ^ 1075" by (simp add: P_def)
      with b(2) show ?thesis by (simp add: mult.commute)
    next
      case False
      then have s': "s = nat (52 - e)" by (simp add: s e_def [symmetric])
      have two: "2 * P = 2 ^ Suc s" by (simp add: P_def)
      show ?thesis
      proof (cases "0 \<le> e")
        case True
        then have "nat (- e) = 0" by simp
        with quot_exp_lower [OF a(1) b(1)] have "b * 2 ^ nat e \<le> a"
          by (simp add: e_def)
        moreover have "b * 1 \<le> b * 2 ^ nat e"
          using b(1) by (intro mult_left_mono) simp_all
        ultimately have "b \<le> a" by simp
        moreover have "a * 1 < a * (2 * P)"
          using a(1) P by (intro mult_strict_left_mono) simp_all
        ultimately show ?thesis by (simp add: algebra_simps)
      next
        case False
        then have ne: "nat e = 0" by simp
        with quot_exp_lower [OF a(1) b(1)] have "b \<le> a * 2 ^ nat (- e)"
          by (simp add: e_def)
        moreover have "(2::int) ^ nat (- e) < 2 ^ Suc s"
          using False e52 by (intro power_strict_increasing) (simp_all add: s')
        then have "a * 2 ^ nat (- e) < a * 2 ^ Suc s"
          using a(1) by (intro mult_strict_left_mono) simp_all
        ultimately show ?thesis unfolding two by (simp add: algebra_simps)
      qed
    qed
    with True show ?thesis by simp
  next
    case False
    with k0 have k1: "1 \<le> k" by simp
    then have "1 * b \<le> k * b"
      using b(1) by (intro mult_right_mono) simp_all
    with lo have ab: "b < a" by simp
    have e0: "0 \<le> e"
    proof (rule ccontr)
      assume "\<not> 0 \<le> e"
      then have "nat (e + 1) = 0" by simp
      with quot_exp_upper [OF a(1) b(1)] have "a * 2 ^ nat (- (e + 1)) < b"
        by (simp add: e_def)
      moreover have "a * 1 \<le> a * 2 ^ nat (- (e + 1))"
        using a(1) by (intro mult_left_mono) simp_all
      ultimately show False using ab by simp
    qed
    then have s': "s = 52 - nat e" and ne: "nat e \<le> 52"
      using e52 by (simp_all add: s e_def [symmetric] nat_diff_distrib)
    from e0 have "nat (- e) = 0" by simp
    with quot_exp_lower [OF a(1) b(1)] have "b * 2 ^ nat e \<le> a"
      by (simp add: e_def)
    with a(2) have "b * 2 ^ nat e < 2 ^ 53" by simp
    also have "(2::int) ^ 53 = 2 ^ Suc s * 2 ^ nat e"
      using ne by (simp add: s' power_add [symmetric] del: power_Suc)
    finally have "b < 2 ^ Suc s" by simp
    then have "b < 2 * P" by (simp add: P_def)
    also have "2 * P * 1 \<le> 2 * P * (a - k * b)"
      using lo P by (intro mult_left_mono) simp_all
    finally show ?thesis by simp
  qed
  have "(2 * (k * P + 1) - 1) * b < 2 * (a * P)"
    using key by (simp add: algebra_simps)
  from round_half_even_ge [OF b(1) this]
  show "k * 2 ^ s < round_half_even (a * 2 ^ s) b"
    by (simp add: P_def)
qed

lemma ceiling_div_int:
  fixes a b :: int
  assumes "0 < b"
  shows "\<lceil>real_of_int a / real_of_int b\<rceil> = (a + b - 1) div b"
proof -
  have "- ((- a) div b) = ((a + b - 1) div b - 1) + 1"
    using ceil_div_bounds [OF assms, of a] by (intro neg_div_ceiling [OF assms])
  then show ?thesis by (simp add: ceiling_divide_eq_div)
qed

lemma math_ceil_truediv:
  fixes a b :: int
  assumes a: "0 < a" "a < 2 ^ 53" and b: "0 < b" "b < a * 2 ^ 1075"
  shows "\<exists>q. truediv a b = Inr q \<and> math_ceil q = \<lceil>real_of_int a / real_of_int b\<rceil>"
proof -
  define s where "s = nat (52 - max (quot_exp a b) (- 1022))"
  define k where "k = (a + b - 1) div b - 1"
  define m where "m = round_half_even (a * 2 ^ s) b"
  have sh: "max (quot_exp a b) (- 1022) - 52 = - int s"
    using truediv_pos_small(1) [OF a b(1)] by (simp add: s_def)
  have pos: "truediv_pos a b = Inr (Float m (- int s))"
    using truediv_pos_small(2) [OF a b(1)] by (simp add: m_def s_def sh)
  have "truediv a b = Inr (Float m (- int s))"
    using a(1) b(1) by (simp add: truediv_def pos)
  moreover have "math_ceil (Float m (- int s)) = k + 1"
  proof -
    have "- ((- m) div 2 ^ s) = k + 1"
      using round_window [OF a b s_def k_def]
      by (intro neg_div_ceiling) (simp_all add: m_def)
    then show ?thesis by (cases "s = 0") simp_all
  qed
  ultimately show ?thesis
    by (simp add: ceiling_div_int [OF b(1)] k_def)
qed

lemma truediv_zero: "b \<noteq> 0 \<Longrightarrow> truediv 0 b = Inr (Float 0 0)"
  by (simp add: truediv_def)

section \<open>The loop of \<open>split_pdf\<close>\<close>

lemma split_chunk_unfold:
  "split_chunk fmt src max_pages total' stm pattern output_dir keep_metadata overwrite fs idx =
     (case fmt pattern stm (idx + 1) idx (idx * max_pages + 1)
             (min (idx * max_pages + max_pages) total') of
        Inl e \<Rightarrow> (fs, Inl e)
      | Inr out_name \<Rightarrow>
          if path_exists fs (joinpath output_dir (ensure_pdf_suffix out_name)) \<and> \<not> overwrite
          then (fs, Inl (FileExistsError
                  (''Output exists: '' @
                   path_str (joinpath output_dir (ensure_pdf_suffix out_name)) @
                   ''. Use overwrite=True to replace.'')))
          else (case save fs (joinpath output_dir (ensure_pdf_suffix out_name))
                       (chunk_doc src max_pages total' keep_metadata idx) of
                  Inl e \<Rightarrow> (fs, Inl e)
                | Inr fs' \<Rightarrow> (fs', Inr (joinpath output_dir (ensure_pdf_suffix out_name)))))"
  by (simp add: split_chunk_def chunk_doc_def Let_def cong: sum.case_cong if_cong)

lemma split_chunk_cases:
  "split_chunk fmt src max_pages total' stm pattern output_dir keep_metadata overwrite fs idx =
     (case chunk_path fmt max_pages total' stm pattern output_dir idx of
        Inl e \<Rightarrow> (fs, Inl e)
      | Inr p \<Rightarrow>
          if path_exists fs p \<and> \<not> overwrite then (fs, Inl (exists_error p))
          else (case save fs p (chunk_doc src max_pages total' keep_metadata idx) of
                  Inl e \<Rightarrow> (fs, Inl e)
                | Inr fs' \<Rightarrow> (fs', Inr p)))"
  unfolding split_chunk_unfold chunk_path_def exists_error_def
  by (cases "fmt pattern stm (idx + 1) idx (idx * max_pages + 1)
             (min (idx * max_pages + max_pages) total')") simp_all

lemma save_Inr_iff:
  "save fs p d = Inr fs' \<longleftrightarrow>
     pages d \<noteq> [] \<and> p \<noteq> [] \<and> is_dir fs (parent p) \<and>
     \<not> (map_of fs p = Some Dir \<and> has_children fs p) \<and>
     fs' = AList.update p (File (Some d)) fs"
  by (auto simp: save_def)

lemma split_chunk_Inr_iff:
  "split_chunk fmt src max_pages total' stm pattern output_dir keep_metadata overwrite fs idx =
     (fs', Inr p) \<longleftrightarrow>
   chunk_path fmt max_pages total' stm pattern output_dir idx = Inr p \<and>
   (overwrite \<or> \<not> path_exists fs p) \<and>
   save fs p (chunk_doc src max_pages total' keep_metadata idx) = Inr fs'"
proof (cases "chunk_path fmt max_pages total' stm pattern output_dir idx")
  case (Inl e)
  then show ?thesis by (simp add: split_chunk_cases)
next
  case cp: (Inr p')
  show ?thesis
  proof (cases "save fs p' (chunk_doc src max_pages total' keep_metadata idx)")
    case (Inl e)
    with cp show ?thesis by (auto simp: split_chunk_cases)
  next
    case (Inr fs1)
    with cp show ?thesis by (auto simp: split_chunk_cases)
  qed
qed

lemma split_loop_append:
  "split_loop body fs outs (xs @ ys) =
     (case split_loop body fs outs xs of
        (fs', Inl e) \<Rightarrow> (fs', Inl e)
      | (fs', Inr outs') \<Rightarrow> split_loop body fs' outs' ys)"
proof (induction xs arbitrary: fs outs)
  case Nil
  then show ?case by simp
next
  case (Cons x xs)
  obtain fs1 r where step: "body fs x = (fs1, r)" by (cases "body fs x")
  show ?case
  proof (cases r)
    case (Inl e)
    with step show ?thesis by simp
  next
    case (Inr p)
    with step Cons.IH [of fs1 "outs @ [p]"] show ?thesis by simp
  qed
qed

lemma split_loop_Cons_Inr_iff:
  "split_loop body fs outs (idx # rest) = (fs', Inr outs') \<longleftrightarrow>
     (\<exists>fs1 p. body fs idx = (fs1, Inr p) \<and> split_loop body fs1 (outs @ [p]) rest = (fs', Inr outs'))"
proof -
  obtain fs1 r where step: "body fs idx = (fs1, r)" by (cases "body fs idx")
  show ?thesis
  proof (cases r)
    case (Inl e)
    with step show ?thesis by simp
  next
    case (Inr p)
    with step show ?thesis by simp
  qed
qed

subsection \<open>Writing where nothing is\<close>

lemma readlink_self: "\<forall>t. map_of fs r \<noteq> Some (Link t) \<Longrightarrow> readlink n fs r = Some r"
  by (cases n) (auto split: option.splits node.splits)

lemma readlink_mono: "readlink n fs q = Some r \<Longrightarrow> n \<le> m \<Longrightarrow> readlink m fs q = Some r"
proof (induction n arbitrary: m q)
  case 0
  then have "\<forall>t. map_of fs q \<noteq> Some (Link t)" "r = q"
    by (auto split: option.splits node.splits)
  then show ?case by (simp add: readlink_self)
next
  case (Suc n)
  then obtain m' where m: "m = Suc m'" "n \<le> m'" by (cases m) auto
  show ?case
  proof (cases "\<exists>t. map_of fs q = Some (Link t)")
    case True
    then obtain t where t: "map_of fs q = Some (Link t)" ..
    with Suc.prems have "readlink n fs t = Some r" by simp
    from Suc.IH [OF this m(2)] t show ?thesis by (simp add: m(1))
  next
    case False
    with Suc.prems have "r = q" by (auto split: option.splits node.splits)
    with False show ?thesis by (simp add: readlink_self)
  qed
qed

lemma stat_readlink:
  assumes "readlink n fs p = Some r" "n \<le> 40"
  shows "stat fs p = (if r = [] then Some Dir else map_of fs r)"
  using readlink_mono [OF assms] by (simp add: stat_def resolve_def)

lemma readlink_update_other:
  assumes "readlink n fs q = Some r" "n \<le> 40" "stat fs p = None" "r = [] \<or> map_of fs r \<noteq> None"
  shows "readlink n (AList.update p v fs) q = Some r \<and> r \<noteq> p"
  using assms(1,2)
proof (induction n arbitrary: q)
  case 0
  then have nl: "\<forall>t. map_of fs q \<noteq> Some (Link t)" and r: "r = q"
    by (auto split: option.splits node.splits)
  have "stat fs q \<noteq> None"
    using stat_readlink [OF "0.prems"] assms(4) by (auto split: if_splits)
  with assms(3) r have rp: "r \<noteq> p" by auto
  with nl r have "\<forall>t. map_of (AList.update p v fs) q \<noteq> Some (Link t)"
    by (simp add: update_conv')
  then have "readlink 0 (AList.update p v fs) q = Some q" by (rule readlink_self)
  with r rp show ?case by simp
next
  case (Suc n)
  have "stat fs q \<noteq> None"
    using stat_readlink [OF Suc.prems] assms(4) by (auto split: if_splits)
  with assms(3) have qp: "q \<noteq> p" by auto
  show ?case
  proof (cases "\<exists>t. map_of fs q = Some (Link t)")
    case True
    then obtain t where t: "map_of fs q = Some (Link t)" ..
    with Suc.prems have "readlink n fs t = Some r" "n \<le> 40" by simp_all
    from Suc.IH [OF this] t qp show ?thesis by (simp add: update_conv')
  next
    case False
    with Suc.prems have r: "r = q" by (auto split: option.splits node.splits)
    from False qp have "\<forall>t. map_of (AList.update p v fs) q \<noteq> Some (Link t)"
      by (simp add: update_conv')
    then have "readlink (Suc n) (AList.update p v fs) q = Some q" by (rule readlink_self)
    with r qp show ?thesis by simp
  qed
qed

lemma stat_update_other:
  assumes "stat fs p = None" "stat fs q = Some n"
  shows "stat (AList.update p v fs) q = Some n"
proof -
  from assms(2) obtain r where r: "readlink 40 fs q = Some r"
    and n: "(if r = [] then Some Dir else map_of fs r) = Some n"
    by (auto simp: stat_def resolve_def split: option.splits)
  then have "r = [] \<or> map_of fs r \<noteq> None" by (auto split: if_splits)
  from readlink_update_other [OF r _ assms(1) this, of v]
  have "readlink 40 (AList.update p v fs) q = Some r" "r \<noteq> p" by simp_all
  with n show ?thesis by (simp add: stat_def resolve_def update_conv' split: if_splits)
qed

lemma stat_update_self:
  assumes "p \<noteq> []" "\<forall>t. v \<noteq> Link t"
  shows "stat (AList.update p v fs) p = Some v"
proof -
  from assms(2) have "\<forall>t. map_of (AList.update p v fs) p \<noteq> Some (Link t)"
    by (simp add: update_conv')
  then have "readlink 40 (AList.update p v fs) p = Some p" by (rule readlink_self)
  with assms(1) show ?thesis by (simp add: stat_def resolve_def update_conv')
qed

lemma py_range_split:
  assumes "k < nat n"
  shows "py_range n = py_range (int k) @ int k # map int [Suc k..<nat n]"
proof -
  have "[0..<nat n] = [0..<k] @ k # [Suc k..<nat n]"
  proof -
    have "[0..<nat n] = [0..<k] @ [k..<nat n]"
      using assms upt_add_eq_append [of 0 k "nat n - k"] by simp
    also have "[k..<nat n] = k # [Suc k..<nat n]"
      using assms by (rule upt_conv_Cons)
    finally show ?thesis .
  qed
  then show ?thesis by (simp add: py_range_def)
qed

lemma length_py_range: "length (py_range n) = nat n"
  by (simp add: py_range_def)

lemma nth_py_range: "i < nat n \<Longrightarrow> py_range n ! i = int i"
  by (simp add: py_range_def)

lemma loop_fresh:
  assumes "split_loop (split_chunk fmt src max_pages total' stm pattern output_dir
      keep_metadata False) fs outs0 idxs = (fs', Inr outs)"
  shows "\<exists>ps. outs = outs0 @ ps \<and> length ps = length idxs \<and>
      (\<forall>i < length idxs. stat fs' (ps ! i) =
         Some (File (Some (chunk_doc src max_pages total' keep_metadata (idxs ! i))))) \<and>
      (\<forall>q n. stat fs q = Some n \<longrightarrow> stat fs' q = Some n)"
  using assms
proof (induction idxs arbitrary: fs outs0)
  case Nil
  then show ?case by simp
next
  case (Cons idx rest)
  let ?doc = "chunk_doc src max_pages total' keep_metadata"
  from Cons.prems obtain fs1 p where
    step: "split_chunk fmt src max_pages total' stm pattern output_dir keep_metadata False
      fs idx = (fs1, Inr p)"
    and rest: "split_loop (split_chunk fmt src max_pages total' stm pattern output_dir
      keep_metadata False) fs1 (outs0 @ [p]) rest = (fs', Inr outs)"
    unfolding split_loop_Cons_Inr_iff by blast
  from step have fresh: "stat fs p = None" and p: "p \<noteq> []"
    and fs1: "fs1 = AList.update p (File (Some (?doc idx))) fs"
    by (simp_all add: split_chunk_Inr_iff save_Inr_iff path_exists_def)
  from Cons.IH [OF rest] obtain ps where ps: "outs = (outs0 @ [p]) @ ps"
    "length ps = length rest"
    "\<forall>i < length rest. stat fs' (ps ! i) = Some (File (Some (?doc (rest ! i))))"
    and mono: "\<forall>q n. stat fs1 q = Some n \<longrightarrow> stat fs' q = Some n"
    by blast
  have "stat fs1 p = Some (File (Some (?doc idx)))"
    unfolding fs1 using p by (intro stat_update_self) simp_all
  with mono have here: "stat fs' p = Some (File (Some (?doc idx)))" by blast
  have a: "\<forall>i < length (idx # rest). stat fs' ((p # ps) ! i) =
      Some (File (Some (?doc ((idx # rest) ! i))))"
  proof (intro allI impI)
    fix i
    assume "i < length (idx # rest)"
    with here ps(3) show "stat fs' ((p # ps) ! i) = Some (File (Some (?doc ((idx # rest) ! i))))"
      by (cases i) simp_all
  qed
  have b: "\<forall>q n. stat fs q = Some n \<longrightarrow> stat fs' q = Some n"
  proof (intro allI impI)
    fix q n
    assume "stat fs q = Some n"
    with fresh have "stat fs1 q = Some n" unfolding fs1 by (rule stat_update_other)
    with mono show "stat fs' q = Some n" by blast
  qed
  from ps(1,2) have "outs = outs0 @ (p # ps) \<and> length (p # ps) = length (idx # rest)"
    by simp
  with a b show ?case by blast
qed

lemma loop_no_overwrite:
  assumes loop: "split_loop (split_chunk fmt src max_pages total' stm pattern output_dir
      keep_metadata False) fs [] idxs = (fs', Inr outs)"
  shows "length outs = length idxs"
    and "\<forall>i < length idxs. stat fs' (outs ! i) =
           Some (File (Some (chunk_doc src max_pages total' keep_metadata (idxs ! i))))"
    and "\<forall>q n. stat fs q = Some n \<longrightarrow> stat fs' q = Some n"
  using loop_fresh [OF loop] by auto

lemma split_pdf_loop:
  assumes "mkdir fs (output_dir_of input_pdf output_dir) = Inr fs1" "0 < max_pages"
    "fitz_open fs1 input_pdf = Inr src" "check_password src password = Inr ()"
    "truediv (page_count src) max_pages = Inr q"
  shows "split_pdf fmt fs input_pdf max_pages output_dir output_pattern password keep_metadata
           overwrite =
         split_loop (split_chunk fmt src max_pages (page_count src) (stem input_pdf)
                       (pattern_of output_pattern) (output_dir_of input_pdf output_dir)
                       keep_metadata overwrite)
           fs1 [] (py_range (math_ceil q))"
  using assms by (simp add: split_pdf_opened split_doc_def)


section \<open>Collisions of output paths\<close>

text \<open>
  Claim C2. Let the first \<open>k\<close> chunks have been written without \<open>overwrite\<close>, leaving
  the file system \<open>fs_k\<close>, and let the path of chunk \<open>k\<close> exist there. Then \<open>split_pdf\<close>
  raises \<open>FileExistsError\<close> for that path (the spec's OutputExists) and returns in
  \<open>fs_k\<close>: chunk \<open>k\<close> and the later ones are not written, each of the \<open>k\<close> earlier
  chunks is on disk with its pages, and nothing that existed before the loop has changed.
\<close>

theorem split_pdf_output_exists:
  assumes mk: "mkdir fs (output_dir_of input_pdf output_dir) = Inr fs1"
    and pos: "0 < max_pages"
    and op: "fitz_open fs1 input_pdf = Inr src"
    and chk: "check_password src password = Inr ()"
    and parts: "truediv (page_count src) max_pages = Inr q" "k < nat (math_ceil q)"
    and first_k: "split_loop (split_chunk fmt src max_pages (page_count src) (stem input_pdf)
          (pattern_of output_pattern) (output_dir_of input_pdf output_dir) keep_metadata False)
        fs1 [] (py_range (int k)) = (fs_k, Inr outs_k)"
    and path: "chunk_path fmt max_pages (page_count src) (stem input_pdf)
        (pattern_of output_pattern) (output_dir_of input_pdf output_dir) (int k) = Inr p"
    and ex: "path_exists fs_k p"
  shows "split_pdf fmt fs input_pdf max_pages output_dir output_pattern password keep_metadata
           False = (fs_k, Inl (exists_error p))
       \<and> length outs_k = k
       \<and> (\<forall>i < k. stat fs_k (outs_k ! i) =
             Some (File (Some (chunk_doc src max_pages (page_count src) keep_metadata (int i)))))
       \<and> (\<forall>q n. stat fs1 q = Some n \<longrightarrow> stat fs_k q = Some n)"
proof -
  let ?body = "split_chunk fmt src max_pages (page_count src) (stem input_pdf)
      (pattern_of output_pattern) (output_dir_of input_pdf output_dir) keep_metadata False"
  have step: "?body fs_k (int k) = (fs_k, Inl (exists_error p))"
    using path ex by (simp add: split_chunk_cases)
  have "split_loop ?body fs1 [] (py_range (math_ceil q)) =
      split_loop ?body fs_k outs_k (int k # map int [Suc k..<nat (math_ceil q)])"
    unfolding py_range_split [OF parts(2)] split_loop_append first_k by simp
  also have "\<dots> = (fs_k, Inl (exists_error p))"
    using step by simp
  finally have run: "split_pdf fmt fs input_pdf max_pages output_dir output_pattern password
      keep_metadata False = (fs_k, Inl (exists_error p))"
    unfolding split_pdf_loop [OF mk pos op chk parts(1)] .
  note inv = loop_no_overwrite [OF first_k]
  from inv(1) have len: "length outs_k = k" by (simp add: length_py_range)
  from inv(2) have "\<forall>i < k. stat fs_k (outs_k ! i) =
      Some (File (Some (chunk_doc src max_pages (page_count src) keep_metadata (int i))))"
    by (simp add: length_py_range nth_py_range)
  with run len inv(3) show ?thesis by blast
qed

theorem split_pdf_output_exists_witness:
  "split_pdf str_format blocked_fs [''tmp'', ''doc.pdf''] 2 None None None True False =
     (blocked_fs @ [([''tmp'', ''doc_part_01.pdf''],
                     File (Some (chunk_doc (make_pdf 5) 2 5 True 0)))],
      Inl (exists_error [''tmp'', ''doc_part_02.pdf'']))
   \<and> stat (blocked_fs @ [([''tmp'', ''doc_part_01.pdf''],
                           File (Some (chunk_doc (make_pdf 5) 2 5 True 0)))])
         [''tmp'', ''doc_part_01.pdf''] =
       Some (File (Some (chunk_doc (make_pdf 5) 2 5 True 0)))
   \<and> pages (chunk_doc (make_pdf 5) 2 5 True 0) = [1, 2]"
proof -
  let ?fs_k = "blocked_fs @ [([''tmp'', ''doc_part_01.pdf''],
      File (Some (chunk_doc (make_pdf 5) 2 5 True 0)))]"
  have mk: "mkdir blocked_fs (output_dir_of [''tmp'', ''doc.pdf''] None) = Inr blocked_fs"
    by code_simp
  have pos: "(0::int) < 2" by simp
  have op: "fitz_open blocked_fs [''tmp'', ''doc.pdf''] = Inr (make_pdf 5)"
    by code_simp
  have chk: "check_password (make_pdf 5) None = Inr ()"
    by code_simp
  have parts: "truediv (page_count (make_pdf 5)) 2 = Inr (Float 5629499534213120 (- 51))"
    "1 < nat (math_ceil (Float 5629499534213120 (- 51)))"
    by code_simp+
  have first_k: "split_loop (split_chunk str_format (make_pdf 5) 2 (page_count (make_pdf 5))
        (stem [''tmp'', ''doc.pdf'']) (pattern_of None)
        (output_dir_of [''tmp'', ''doc.pdf''] None) True False)
      blocked_fs [] (py_range (int 1)) = (?fs_k, Inr [[''tmp'', ''doc_part_01.pdf'']])"
    by code_simp
  have path: "chunk_path str_format 2 (page_count (make_pdf 5)) (stem [''tmp'', ''doc.pdf''])
      (pattern_of None) (output_dir_of [''tmp'', ''doc.pdf''] None) (int 1) =
    Inr [''tmp'', ''doc_part_02.pdf'']"
    by code_simp
  have ex: "path_exists ?fs_k [''tmp'', ''doc_part_02.pdf'']"
    by code_simp
  have pg: "pages (chunk_doc (make_pdf 5) 2 5 True 0) = [1, 2]"
    by code_simp
  have five: "page_count (make_pdf 5) = 5"
    by code_simp
  from split_pdf_output_exists [OF mk pos op chk parts first_k path ex]
  show ?thesis using pg five by simp
qed


text \<open>
  A link whose target is missing does not exist for line 82, and \<open>save\<close> puts the chunk
  in its place: here the path of the first chunk is a link to the path of the second,
  and both chunks are written.
\<close>

lemma split_pdf_dangling_link:
  "split_pdf str_format dangling_fs [''tmp'', ''doc.pdf''] 2 None None None False False =
     ([([''tmp''], Dir), ([''tmp'', ''doc.pdf''], File (Some (make_pdf 3))),
       ([''tmp'', ''doc_part_01.pdf''],
        File (Some \<lparr>pages = [1, 2], metadata = [(''format'', ''PDF 1.7'')],
                     is_encrypted = False, passwords = []\<rparr>)),
       ([''tmp'', ''doc_part_02.pdf''],
        File (Some \<lparr>pages = [3], metadata = [(''format'', ''PDF 1.7'')],
                     is_encrypted = False, passwords = []\<rparr>))],
      Inr [[''tmp'', ''doc_part_01.pdf''], [''tmp'', ''doc_part_02.pdf'']])"
  by code_simp

section \<open>The pages of the parts\<close>

lemma map_nth_upto:
  assumes "0 \<le> i" "j < int (length xs)"
  shows "map (\<lambda>k. xs ! nat k) [i..j] = take (nat (j - i + 1)) (drop (nat i) xs)"
proof (rule nth_equalityI)
  show "length (map (\<lambda>k. xs ! nat k) [i..j]) = length (take (nat (j - i + 1)) (drop (nat i) xs))"
    using assms by auto
next
  fix n
  assume "n < length (map (\<lambda>k. xs ! nat k) [i..j])"
  then have n: "int n < j - i + 1" by auto
  then have "[i..j] ! n = i + int n"
    by (intro nth_upto) simp
  with n assms show "map (\<lambda>k. xs ! nat k) [i..j] ! n = take (nat (j - i + 1)) (drop (nat i) xs) ! n"
    by (simp add: nat_add_distrib)
qed

lemma insert_pdf_range:
  assumes "0 \<le> fp" "fp \<le> tp" "tp < page_count src"
  shows "pages (insert_pdf fitz_new src fp tp) =
           take (nat (tp - fp + 1)) (drop (nat fp) (pages src))"
proof -
  have n: "page_count src \<noteq> 0" "min (max fp 0) (page_count src - 1) = fp"
    "min (if tp < 0 then page_count src - 1 else tp) (page_count src - 1) = tp"
    using assms by simp_all
  have "pages (insert_pdf fitz_new src fp tp) = map (\<lambda>k. pages src ! nat k) [fp..tp]"
    unfolding insert_pdf_def Let_def n using assms(2) n(1) by (simp add: fitz_new_def)
  also have "\<dots> = take (nat (tp - fp + 1)) (drop (nat fp) (pages src))"
    using assms by (intro map_nth_upto) (simp_all add: page_count_def)
  finally show ?thesis .
qed

lemma set_metadata_pages:
  "pages (case set_metadata part m of Inl e \<Rightarrow> part | Inr d \<Rightarrow> d) = pages part"
  by (simp add: set_metadata_def)

lemma chunk_len_arith:
  fixes f m :: int and n :: nat
  assumes "0 \<le> f" "f < int n" "0 < m"
  shows "nat (min (f + m) (int n) - 1 - f + 1) = min (nat m) (n - nat f)"
  using assms by (simp add: min_def) linarith

lemma chunk_doc_pages:
  assumes "0 < max_pages" "0 \<le> idx" "idx * max_pages < page_count src"
  shows "pages (chunk_doc src max_pages (page_count src) keep_metadata idx) =
           take (nat max_pages) (drop (nat (idx * max_pages)) (pages src))"
proof -
  let ?fp = "idx * max_pages"
  let ?tp = "min (idx * max_pages + max_pages) (page_count src) - 1"
  have fp: "0 \<le> ?fp" using assms by simp
  have "pages (chunk_doc src max_pages (page_count src) keep_metadata idx) =
      pages (insert_pdf fitz_new src ?fp ?tp)"
    by (simp add: chunk_doc_def Let_def set_metadata_pages)
  also have "\<dots> = take (nat (?tp - ?fp + 1)) (drop (nat ?fp) (pages src))"
    using assms fp by (intro insert_pdf_range) simp_all
  also have "nat (?tp - ?fp + 1) = min (nat max_pages) (length (drop (nat ?fp) (pages src)))"
    using chunk_len_arith [OF fp _ assms(1), of "length (pages src)"] assms(3)
    by (simp add: page_count_def)
  also have "take \<dots> (drop (nat ?fp) (pages src)) =
      take (nat max_pages) (drop (nat ?fp) (pages src))"
    by (simp add: min_def)
  finally show ?thesis .
qed

lemma concat_chunks:
  "concat (map (\<lambda>i. take m (drop (i * m) xs)) [0..<n]) = take (n * m) xs"
proof (induction n)
  case 0
  then show ?case by simp
next
  case (Suc n)
  have "take (n * m + m) xs = take (n * m) xs @ take m (drop (n * m) xs)"
    by (rule take_add)
  with Suc show ?case by (simp add: add.commute)
qed

lemma split_pdf_Inr_D:
  assumes "split_pdf fmt fs input_pdf max_pages output_dir output_pattern password
             keep_metadata overwrite = (fs', Inr outs)"
  obtains fs1 src q where
    "mkdir fs (output_dir_of input_pdf output_dir) = Inr fs1" "0 < max_pages"
    "fitz_open fs1 input_pdf = Inr src" "check_password src password = Inr ()"
    "truediv (page_count src) max_pages = Inr q"
proof (cases "mkdir fs (output_dir_of input_pdf output_dir)")
  case (Inl e)
  with assms show ?thesis by (simp add: split_pdf_mkdir_fails)
next
  case mk: (Inr fs1)
  show ?thesis
  proof (cases "max_pages \<le> 0")
    case True
    with assms mk show ?thesis by (simp add: split_pdf_invalid)
  next
    case False
    then have pos: "0 < max_pages" by simp
    show ?thesis
    proof (cases "fitz_open fs1 input_pdf")
      case (Inl e)
      with assms mk pos show ?thesis by (simp add: split_pdf_def)
    next
      case op: (Inr src)
      show ?thesis
      proof (cases "check_password src password")
        case (Inl e)
        with assms split_pdf_check_fails [OF mk pos op Inl] show ?thesis by simp
      next
        case (Inr u)
        then have chk: "check_password src password = Inr ()" by simp
        show ?thesis
        proof (cases "truediv (page_count src) max_pages")
          case (Inl e)
          with assms split_pdf_opened [OF mk pos op chk] show ?thesis
            by (simp add: split_doc_def)
        next
          case (Inr q)
          with mk pos op chk that show ?thesis by blast
        qed
      qed
    qed
  qed
qed


lemma ceiling_parts:
  fixes t m :: int
  assumes "0 < m" "0 < t"
  shows "0 < (t + m - 1) div m" "((t + m - 1) div m - 1) * m < t" "t \<le> (t + m - 1) div m * m"
proof -
  from ceil_div_bounds [OF assms(1), of t]
  show "((t + m - 1) div m - 1) * m < t" "t \<le> (t + m - 1) div m * m"
    by (simp_all add: algebra_simps)
  with assms show "0 < (t + m - 1) div m"
    by (metis mult_le_0_iff not_le order.strict_trans2 less_le_not_le)
qed

lemma split_loop_length:
  "split_loop body fs outs0 idxs = (fs', Inr outs) \<Longrightarrow> length outs = length outs0 + length idxs"
proof (induction idxs arbitrary: fs outs0)
  case Nil
  then show ?case by simp
next
  case (Cons idx rest)
  then obtain fs1 p where "split_loop body fs1 (outs0 @ [p]) rest = (fs', Inr outs)"
    unfolding split_loop_Cons_Inr_iff by blast
  from Cons.IH [OF this] show ?case by simp
qed

text \<open>
  Where the quotient is computed exactly, which is wherever the page count is below
  \<open>2 ^ 53\<close> and \<open>max_pages\<close> below \<open>2 ^ 1075\<close> times the page count, a run that returns
  has written \<open>\<lceil>total / max_pages\<rceil>\<close> parts: part \<open>i\<close> holds the \<open>max_pages\<close> pages from
  page \<open>i * max_pages\<close> on (the last one what is left of them), the parts in order are
  the pages of the source, and without \<open>overwrite\<close> each is on disk at its path.
\<close>

lemma split_pdf_parts:
  assumes mk: "mkdir fs (output_dir_of input_pdf output_dir) = Inr fs1"
    and op: "fitz_open fs1 input_pdf = Inr src"
    and T: "0 < page_count src" "page_count src < 2 ^ 53"
    and M: "0 < max_pages" "max_pages < page_count src * 2 ^ 1075"
    and run: "split_pdf fmt fs input_pdf max_pages output_dir output_pattern password
        keep_metadata overwrite = (fs', Inr outs)"
  shows "int (length outs) = \<lceil>real_of_int (page_count src) / real_of_int max_pages\<rceil>"
    and "\<forall>i < length outs.
           pages (chunk_doc src max_pages (page_count src) keep_metadata (int i)) =
           take (nat max_pages) (drop (i * nat max_pages) (pages src))"
    and "concat (map (\<lambda>i. pages (chunk_doc src max_pages (page_count src) keep_metadata (int i)))
           [0..<length outs]) = pages src"
    and "\<not> overwrite \<longrightarrow> (\<forall>i < length outs. stat fs' (outs ! i) =
           Some (File (Some (chunk_doc src max_pages (page_count src) keep_metadata (int i)))))"
proof -
  let ?T = "page_count src"
  let ?n = "(?T + max_pages - 1) div max_pages"
  let ?doc = "chunk_doc src max_pages ?T keep_metadata"
  have chk: "check_password src password = Inr ()"
  proof (cases "check_password src password")
    case (Inl e)
    from split_pdf_check_fails [OF mk M(1) op Inl] run show ?thesis by simp
  next
    case (Inr u)
    then show ?thesis by simp
  qed
  from math_ceil_truediv [OF T M] obtain q where q: "truediv ?T max_pages = Inr q"
    and "math_ceil q = \<lceil>real_of_int ?T / real_of_int max_pages\<rceil>" by blast
  then have n: "math_ceil q = ?n" by (simp add: ceiling_div_int [OF M(1)])
  note loop = run [unfolded split_pdf_loop [OF mk M(1) op chk q] n]
  from split_loop_length [OF loop] have len: "length outs = nat ?n"
    by (simp add: length_py_range)
  note bounds = ceiling_parts [OF M(1) T(1)]
  from len bounds(1) show "int (length outs) = \<lceil>real_of_int ?T / real_of_int max_pages\<rceil>"
    by (simp add: ceiling_div_int [OF M(1)])
  show pg: "\<forall>i < length outs. pages (?doc (int i)) =
      take (nat max_pages) (drop (i * nat max_pages) (pages src))"
  proof (intro allI impI)
    fix i
    assume "i < length outs"
    with len have "int i \<le> ?n - 1" by simp
    with M(1) have "int i * max_pages \<le> (?n - 1) * max_pages"
      by (intro mult_right_mono) simp_all
    with bounds(2) have "int i * max_pages < ?T" by simp
    from chunk_doc_pages [OF M(1) _ this, of keep_metadata] M(1)
    show "pages (?doc (int i)) = take (nat max_pages) (drop (i * nat max_pages) (pages src))"
      by (simp add: nat_mult_distrib)
  qed
  have "concat (map (\<lambda>i. pages (?doc (int i))) [0..<length outs]) =
      concat (map (\<lambda>i. take (nat max_pages) (drop (i * nat max_pages) (pages src)))
        [0..<length outs])"
    using pg by (intro arg_cong [where f = concat] map_cong) simp_all
  also have "\<dots> = take (length outs * nat max_pages) (pages src)"
    by (rule concat_chunks)
  also have "\<dots> = pages src"
  proof -
    from bounds(3) have "nat ?T \<le> nat (?n * max_pages)" by (rule nat_mono)
    also from bounds(1) have "nat (?n * max_pages) = nat ?n * nat max_pages"
      by (intro nat_mult_distrib) simp
    finally have "length (pages src) \<le> length outs * nat max_pages"
      by (simp add: len page_count_def)
    then show ?thesis by simp
  qed
  finally show "concat (map (\<lambda>i. pages (?doc (int i))) [0..<length outs]) = pages src" .
  show "\<not> overwrite \<longrightarrow> (\<forall>i < length outs. stat fs' (outs ! i) =
      Some (File (Some (?doc (int i)))))"
  proof
    assume "\<not> overwrite"
    with loop have "split_loop (split_chunk fmt src max_pages ?T (stem input_pdf)
        (pattern_of output_pattern) (output_dir_of input_pdf output_dir) keep_metadata False)
      fs1 [] (py_range ?n) = (fs', Inr outs)" by simp
    from loop_no_overwrite(2) [OF this] len
    show "\<forall>i < length outs. stat fs' (outs ! i) = Some (File (Some (?doc (int i))))"
      by (simp add: length_py_range nth_py_range)
  qed
qed

text \<open>
  Claim C1 fails for a large \<open>max_pages\<close>. Line 68 divides in floating point: for one
  page and \<open>max_pages = 2 ^ 1075\<close> the quotient \<open>2 ^ - 1075\<close> lies half way between zero
  and the smallest positive float and is rounded to zero, so \<open>parts\<close> is \<open>0\<close>, the loop
  does not run and \<open>split_pdf\<close> returns no path and writes nothing, where
  \<open>\<lceil>1 / 2 ^ 1075\<rceil> = 1\<close> part with the one page is due.
\<close>

theorem split_pdf_parts_underflow:
  "split_pdf str_format one_page_fs [''tmp'', ''one.pdf''] (2 ^ 1075) None None None True False =
     (one_page_fs, Inr [])
   \<and> fitz_open one_page_fs [''tmp'', ''one.pdf''] = Inr (make_pdf 1)
   \<and> page_count (make_pdf 1) = 1
   \<and> truediv 1 (2 ^ 1075) = Inr (Float 0 (- 1074))
   \<and> math_ceil (Float 0 (- 1074)) = 0
   \<and> (1 + 2 ^ 1075 - 1) div (2 ^ 1075) = (1::int)"
  by code_simp

section \<open>Discovery\<close>

text \<open>
  Claim C3 fails on POSIX. The directory branch of \<open>find_pdfs\<close> (lines 120 to 122)
  leaves the match to \<open>glob\<close>, which compares names with case there, so \<open>b.PDF\<close> is
  not found, recursive or not; the link is found and dropped as a duplicate of
  \<open>a.pdf\<close>, and \<open>c.txt\<close> is not matched. The file branch (line 118) lowers the suffix
  and takes \<open>b.PDF\<close> when it is named, and on Windows \<open>glob\<close> finds it too.
\<close>

theorem find_pdfs_uppercase_suffix:
  "find_pdfs True discover_fs [[''d'']] True ''*.pdf'' = Inr [[''d'', ''a.pdf'']]
   \<and> find_pdfs True discover_fs [[''d'']] False ''*.pdf'' = Inr [[''d'', ''a.pdf'']]
   \<and> find_pdfs True discover_fs [[''d'', ''b.PDF'']] True ''*.pdf'' = Inr [[''d'', ''b.PDF'']]
   \<and> find_pdfs False discover_fs [[''d'']] True ''*.pdf'' =
       Inr [[''d'', ''a.pdf''], [''d'', ''b.PDF'']]"
  by code_simp

section \<open>Metadata\<close>

lemma set_metadata_Inl_iff: "(\<exists>e. set_metadata part (metadata src) = Inl e) \<longleftrightarrow> \<not> accepts_metadata src"
  by (simp add: set_metadata_def accepts_metadata_def)



lemma filter_filter_not: "filter P (filter (\<lambda>x. \<not> P x) xs) = []"
  by (induction xs) simp_all








section \<open>Batches\<close>

lemma mkdir_parents_stat_mono:
  "mkdir_parents fs q cs = Inr fs' \<Longrightarrow> stat fs p = Some n \<Longrightarrow> stat fs' p = Some n"
proof (induction cs arbitrary: fs q)
  case Nil
  then show ?case by simp
next
  case (Cons c cs)
  show ?case
  proof (cases "is_dir fs (q @ [c])")
    case True
    with Cons.prems(1) have "mkdir_parents fs (q @ [c]) cs = Inr fs'" by simp
    from Cons.IH [OF this Cons.prems(2)] show ?thesis .
  next
    case False
    with Cons.prems(1) have none: "map_of fs (q @ [c]) = None"
      and rest: "mkdir_parents (AList.update (q @ [c]) Dir fs) (q @ [c]) cs = Inr fs'"
      by (simp_all split: if_splits)
    from none Cons.prems(2) have "stat (AList.update (q @ [c]) Dir fs) p = Some n"
      by (intro stat_create_mono) simp_all
    from Cons.IH [OF rest this] show ?thesis .
  qed
qed

lemma split_chunk_Inl_fs:
  "split_chunk fmt src max_pages total' stm pattern output_dir keep_metadata overwrite fs idx =
     (fs', Inl e) \<Longrightarrow> fs' = fs"
  unfolding split_chunk_cases
  by (cases "chunk_path fmt max_pages total' stm pattern output_dir idx";
      cases "save fs (projr (chunk_path fmt max_pages total' stm pattern output_dir idx))
        (chunk_doc src max_pages total' keep_metadata idx)")
    (auto split: if_splits sum.splits)


lemma split_chunk_mono:
  assumes "split_chunk fmt src max_pages total' stm pattern output_dir keep_metadata False
      fs idx = (fs', r)" "stat fs q = Some n"
  shows "stat fs' q = Some n"
proof (cases r)
  case (Inl e)
  with assms(1) have "fs' = fs" by (auto dest: split_chunk_Inl_fs)
  with assms(2) show ?thesis by simp
next
  case (Inr p)
  with assms(1) have "stat fs p = None"
    and "fs' = AList.update p (File (Some (chunk_doc src max_pages total' keep_metadata idx))) fs"
    by (simp_all add: split_chunk_Inr_iff save_Inr_iff path_exists_def)
  with assms(2) show ?thesis by (simp add: stat_update_other)
qed

lemma split_loop_mono:
  assumes "split_loop (split_chunk fmt src max_pages total' stm pattern output_dir
      keep_metadata False) fs outs0 idxs = (fs', r)" "stat fs q = Some n"
  shows "stat fs' q = Some n"
  using assms
proof (induction idxs arbitrary: fs outs0)
  case Nil
  then show ?case by simp
next
  case (Cons idx rest)
  obtain fs1 r1 where step: "split_chunk fmt src max_pages total' stm pattern output_dir
      keep_metadata False fs idx = (fs1, r1)"
    by (cases "split_chunk fmt src max_pages total' stm pattern output_dir
      keep_metadata False fs idx")
  from split_chunk_mono [OF step Cons.prems(2)] have q: "stat fs1 q = Some n" .
  show ?case
  proof (cases r1)
    case (Inl e)
    with step Cons.prems(1) have "fs' = fs1" by simp
    with q show ?thesis by simp
  next
    case (Inr p)
    with step Cons.prems(1) have "split_loop (split_chunk fmt src max_pages total' stm pattern
        output_dir keep_metadata False) fs1 (outs0 @ [p]) rest = (fs', r)" by simp
    from Cons.IH [OF this q] show ?thesis .
  qed
qed

lemma split_pdf_mono:
  assumes run: "split_pdf fmt fs input_pdf max_pages output_dir output_pattern password
      keep_metadata False = (fs', r)" and q: "stat fs q = Some n"
  shows "stat fs' q = Some n"
proof (cases "mkdir fs (output_dir_of input_pdf output_dir)")
  case (Inl e)
  with run q show ?thesis by (simp add: split_pdf_mkdir_fails)
next
  case mk: (Inr fs1)
  from mk q have q1: "stat fs1 q = Some n"
    unfolding mkdir_def by (rule mkdir_parents_stat_mono)
  show ?thesis
  proof (cases "max_pages \<le> 0")
    case True
    with run mk q1 show ?thesis by (simp add: split_pdf_invalid)
  next
    case False
    then have pos: "0 < max_pages" by simp
    show ?thesis
    proof (cases "fitz_open fs1 input_pdf")
      case (Inl e)
      with run mk pos q1 show ?thesis by (simp add: split_pdf_def)
    next
      case op: (Inr src)
      show ?thesis
      proof (cases "check_password src password")
        case (Inl e)
        with run split_pdf_check_fails [OF mk pos op Inl] q1 show ?thesis by simp
      next
        case (Inr u)
        then have chk: "check_password src password = Inr ()" by simp
        show ?thesis
        proof (cases "truediv (page_count src) max_pages")
          case (Inl e)
          with run split_pdf_opened [OF mk pos op chk] q1 show ?thesis
            by (simp add: split_doc_def)
        next
          case (Inr x)
          from run [unfolded split_pdf_loop [OF mk pos op chk Inr]]
          show ?thesis using q1 by (rule split_loop_mono)
        qed
      qed
    qed
  qed
qed

lemma split_pdf_outputs_files:
  assumes run: "split_pdf fmt fs input_pdf max_pages output_dir output_pattern password
      keep_metadata False = (fs', Inr outs)" and p: "p \<in> set outs"
  shows "is_file fs' p"
proof -
  from run obtain fs1 src x where mk: "mkdir fs (output_dir_of input_pdf output_dir) = Inr fs1"
    and pos: "0 < max_pages" and op: "fitz_open fs1 input_pdf = Inr src"
    and chk: "check_password src password = Inr ()"
    and x: "truediv (page_count src) max_pages = Inr x"
    by (rule split_pdf_Inr_D)
  note loop = run [unfolded split_pdf_loop [OF mk pos op chk x]]
  from p obtain i where i: "i < length outs" "outs ! i = p"
    by (auto simp: in_set_conv_nth)
  from loop_no_overwrite(1,2) [OF loop] i
  have "\<exists>d. stat fs' p = Some (File (Some d))" by auto
  then show ?thesis by (auto simp: is_file_def)
qed

lemma many_loop_append:
  "many_loop body fs outs (xs @ ys) =
     (case many_loop body fs outs xs of
        (fs', Inl e) \<Rightarrow> (fs', Inl e)
      | (fs', Inr outs') \<Rightarrow> many_loop body fs' outs' ys)"
proof (induction xs arbitrary: fs outs)
  case Nil
  then show ?case by simp
next
  case (Cons x xs)
  obtain fs1 r where step: "body fs x = (fs1, r)" by (cases "body fs x")
  show ?case
  proof (cases r)
    case (Inl e)
    with step show ?thesis by simp
  next
    case (Inr p)
    with step Cons.IH [of fs1 "outs @ p"] show ?thesis by simp
  qed
qed

lemma many_loop_steps:
  assumes "length fss = Suc (length outss)" "k \<le> length outss" "length outss \<le> length pdfs"
    and "\<forall>i < length outss. body (fss ! i) (pdfs ! i) = (fss ! Suc i, Inr (outss ! i))"
  shows "many_loop body (fss ! 0) outs0 (take k pdfs) =
           (fss ! k, Inr (outs0 @ concat (take k outss)))"
  using assms(2)
proof (induction k)
  case 0
  then show ?case by simp
next
  case (Suc k)
  then have k: "k < length outss" "k < length pdfs" using assms(3) by simp_all
  with assms(4) have step: "body (fss ! k) (pdfs ! k) = (fss ! Suc k, Inr (outss ! k))"
    by simp
  from Suc k have IH: "many_loop body (fss ! 0) outs0 (take k pdfs) =
      (fss ! k, Inr (outs0 @ concat (take k outss)))" by simp
  show ?case
    unfolding take_Suc_conv_app_nth [OF k(2)] take_Suc_conv_app_nth [OF k(1)]
      many_loop_append IH
    using step by simp
qed


lemma split_one_eq:
  "split_one fmt max_pages output_dir output_pattern password keep_metadata overwrite fs pdf =
     split_pdf fmt fs pdf max_pages (Some (PathObj (out_dir_for output_dir pdf))) output_pattern
       password keep_metadata overwrite"
  by (simp add: split_one_def out_dir_for_def)

text \<open>
  The directory line 148 chooses: the common one when \<open>output_dir\<close> is a \<open>Path\<close> or a
  string that is not empty, the parent of the file otherwise.
\<close>

lemma out_dir_for_cases:
  "out_dir_for None pdf = parent pdf"
  "out_dir_for (Some (PathObj d)) pdf = d"
  "out_dir_for (Some (Str s)) pdf = (if s = [] then parent pdf else parse_path s)"
  by (simp_all add: out_dir_for_def)

lemma steps_mono:
  assumes "\<forall>i < k. split_pdf fmt (fss ! i) (pdfs ! i) max_pages (dir i) output_pattern
      password keep_metadata False = (fss ! Suc i, r i)"
    and "i \<le> j" "j \<le> k" "stat (fss ! i) q = Some n"
  shows "stat (fss ! j) q = Some n"
  using assms(2,3)
proof (induction j)
  case 0
  with assms(4) show ?case by simp
next
  case (Suc j)
  show ?case
  proof (cases "i = Suc j")
    case True
    with assms(4) show ?thesis by simp
  next
    case False
    with Suc have IH: "stat (fss ! j) q = Some n" and "j < k" by simp_all
    with assms(1) have "split_pdf fmt (fss ! j) (pdfs ! j) max_pages (dir j) output_pattern
      password keep_metadata False = (fss ! Suc j, r j)" by simp
    from split_pdf_mono [OF this IH] show ?thesis .
  qed
qed

lemma is_file_stat: "is_file fs p \<longleftrightarrow> (\<exists>c. stat fs p = Some (File c))"
  by (auto simp: is_file_def split: option.splits node.splits)

text \<open>
  Claim C5. Let \<open>find_pdfs\<close> return \<open>pdfs\<close>, and let the first \<open>k\<close> of them be split one
  after the other, each by \<open>split_pdf\<close> with the arguments of the batch and the directory
  of line 148, in the state its predecessor left, returning \<open>outss ! i\<close>. If these are
  all, \<open>split_many\<close> returns their outputs, concatenated in the order of discovery. If
  the next file fails, \<open>split_many\<close> fails with its exception in the state that call
  left: the later files are not split and nothing is rolled back. Without
  \<open>overwrite\<close> every output written so far is still a file in the final state.
\<close>

theorem split_many_batch:
  assumes find: "find_pdfs cs fs inputs recursive ''*.pdf'' = Inr pdfs"
    and len: "length fss = Suc (length outss)" "length outss \<le> length pdfs"
    and start: "fss ! 0 = fs"
    and steps: "\<forall>i < length outss.
        split_pdf fmt (fss ! i) (pdfs ! i) max_pages
          (Some (PathObj (out_dir_for output_dir (pdfs ! i)))) output_pattern password
          keep_metadata overwrite = (fss ! Suc i, Inr (outss ! i))"
  shows "(length outss = length pdfs \<longrightarrow>
            split_many fmt cs fs inputs max_pages output_dir output_pattern recursive password
              keep_metadata overwrite = (fss ! length outss, Inr (concat outss))
          \<and> (\<not> overwrite \<longrightarrow> (\<forall>p \<in> set (concat outss). is_file (fss ! length outss) p)))
       \<and> (\<forall>fs' e. length outss < length pdfs \<and>
            split_pdf fmt (fss ! length outss) (pdfs ! length outss) max_pages
              (Some (PathObj (out_dir_for output_dir (pdfs ! length outss)))) output_pattern
              password keep_metadata overwrite = (fs', Inl e) \<longrightarrow>
            split_many fmt cs fs inputs max_pages output_dir output_pattern recursive password
              keep_metadata overwrite = (fs', Inl e)
          \<and> (\<not> overwrite \<longrightarrow> (\<forall>p \<in> set (concat outss). is_file fs' p)))"
proof -
  let ?k = "length outss"
  let ?body = "split_one fmt max_pages output_dir output_pattern password keep_metadata overwrite"
  have many: "split_many fmt cs fs inputs max_pages output_dir output_pattern recursive password
      keep_metadata overwrite = many_loop ?body fs [] pdfs"
    using find by (simp add: split_many_def)
  from steps have "\<forall>i < ?k. ?body (fss ! i) (pdfs ! i) = (fss ! Suc i, Inr (outss ! i))"
    by (simp add: split_one_eq)
  from many_loop_steps [OF len(1) order_refl len(2) this, of "[]"]
  have first: "many_loop ?body fs [] (take ?k pdfs) = (fss ! ?k, Inr (concat outss))"
    by (simp add: start)
  have kept: "is_file (fss ! ?k) p" if "\<not> overwrite" "p \<in> set (concat outss)" for p
  proof -
    from that(2) obtain xs where "xs \<in> set outss" "p \<in> set xs" by auto
    then obtain i where i: "i < ?k" "p \<in> set (outss ! i)"
      by (metis in_set_conv_nth)
    from steps that(1) have st: "\<forall>i < ?k. split_pdf fmt (fss ! i) (pdfs ! i) max_pages
        (Some (PathObj (out_dir_for output_dir (pdfs ! i)))) output_pattern password
        keep_metadata False = (fss ! Suc i, Inr (outss ! i))" by simp
    with i(1) have "split_pdf fmt (fss ! i) (pdfs ! i) max_pages
        (Some (PathObj (out_dir_for output_dir (pdfs ! i)))) output_pattern password
        keep_metadata False = (fss ! Suc i, Inr (outss ! i))" by blast
    from split_pdf_outputs_files [OF this i(2)] obtain c
      where "stat (fss ! Suc i) p = Some (File c)" by (auto simp: is_file_stat)
    from steps_mono [OF st _ _ this, of ?k] i(1) have "stat (fss ! ?k) p = Some (File c)"
      by simp
    then show ?thesis by (auto simp: is_file_stat)
  qed
  show ?thesis
  proof (intro conjI allI impI ballI)
    assume "?k = length pdfs"
    with first many show "split_many fmt cs fs inputs max_pages output_dir output_pattern
        recursive password keep_metadata overwrite = (fss ! ?k, Inr (concat outss))"
      by simp
  next
    fix p
    assume "\<not> overwrite" "p \<in> set (concat outss)"
    then show "is_file (fss ! ?k) p" by (rule kept)
  next
    fix fs' e
    assume fail: "?k < length pdfs \<and>
        split_pdf fmt (fss ! ?k) (pdfs ! ?k) max_pages
          (Some (PathObj (out_dir_for output_dir (pdfs ! ?k)))) output_pattern
          password keep_metadata overwrite = (fs', Inl e)"
    then have k: "?k < length pdfs" and step: "?body (fss ! ?k) (pdfs ! ?k) = (fs', Inl e)"
      by (simp_all add: split_one_eq)
    have "pdfs = take ?k pdfs @ pdfs ! ?k # drop (Suc ?k) pdfs"
      using k by (simp add: Cons_nth_drop_Suc)
    then have "many_loop ?body fs [] pdfs =
        many_loop ?body fs [] (take ?k pdfs @ pdfs ! ?k # drop (Suc ?k) pdfs)" by simp
    also have "\<dots> = (fs', Inl e)"
      unfolding many_loop_append first using step by simp
    finally show "split_many fmt cs fs inputs max_pages output_dir output_pattern
        recursive password keep_metadata overwrite = (fs', Inl e)"
      by (simp add: many)
  next
    fix fs' e p
    assume fail: "?k < length pdfs \<and>
        split_pdf fmt (fss ! ?k) (pdfs ! ?k) max_pages
          (Some (PathObj (out_dir_for output_dir (pdfs ! ?k)))) output_pattern
          password keep_metadata overwrite = (fs', Inl e)"
      and no: "\<not> overwrite" and p: "p \<in> set (concat outss)"
    from kept [OF no p] obtain c where c: "stat (fss ! ?k) p = Some (File c)"
      by (auto simp: is_file_stat)
    from fail no have "split_pdf fmt (fss ! ?k) (pdfs ! ?k) max_pages
          (Some (PathObj (out_dir_for output_dir (pdfs ! ?k)))) output_pattern
          password keep_metadata False = (fs', Inl e)" by simp
    from split_pdf_mono [OF this c] show "is_file fs' p" by (auto simp: is_file_stat)
  qed
qed

text \<open>
  A directory with a PDF of three pages and a file that is not a PDF: the parts of the
  first are written beside it, and the failure to open the second ends the batch.
\<close>

theorem split_many_batch_witness:
  "split_many str_format True batch_fs [[''in'']] 2 None None True None True False =
     (batch_fs @
        [([''in'', ''a_part_01.pdf''],
          File (Some \<lparr>pages = [1, 2], metadata = [(''format'', ''PDF 1.7'')],
                       is_encrypted = False, passwords = []\<rparr>)),
         ([''in'', ''a_part_02.pdf''],
          File (Some \<lparr>pages = [3], metadata = [(''format'', ''PDF 1.7'')],
                       is_encrypted = False, passwords = []\<rparr>))],
      Inl (FitzError ''Failed to open file''))
   \<and> is_file
        (batch_fs @
           [([''in'', ''a_part_01.pdf''],
             File (Some \<lparr>pages = [1, 2], metadata = [(''format'', ''PDF 1.7'')],
                          is_encrypted = False, passwords = []\<rparr>)),
            ([''in'', ''a_part_02.pdf''],
             File (Some \<lparr>pages = [3], metadata = [(''format'', ''PDF 1.7'')],
                          is_encrypted = False, passwords = []\<rparr>))])
        [''in'', ''a_part_02.pdf'']"
proof -
  let ?fs_a = "batch_fs @
      [([''in'', ''a_part_01.pdf''],
        File (Some \<lparr>pages = [1, 2], metadata = [(''format'', ''PDF 1.7'')],
                     is_encrypted = False, passwords = []\<rparr>)),
       ([''in'', ''a_part_02.pdf''],
        File (Some \<lparr>pages = [3], metadata = [(''format'', ''PDF 1.7'')],
                     is_encrypted = False, passwords = []\<rparr>))]"
  let ?pdfs = "[[''in'', ''a.pdf''], [''in'', ''b.pdf'']]"
  let ?fss = "[batch_fs, ?fs_a]"
  let ?outss = "[[[''in'', ''a_part_01.pdf''], [''in'', ''a_part_02.pdf'']]]"
  have find: "find_pdfs True batch_fs [[''in'']] True ''*.pdf'' = Inr ?pdfs"
    by code_simp
  have len: "length ?fss = Suc (length ?outss)" "length ?outss \<le> length ?pdfs"
    by simp_all
  have start: "?fss ! 0 = batch_fs"
    by simp
  have first: "split_pdf str_format batch_fs [''in'', ''a.pdf''] 2
      (Some (PathObj (out_dir_for None [''in'', ''a.pdf'']))) None None True False =
    (?fs_a, Inr [[''in'', ''a_part_01.pdf''], [''in'', ''a_part_02.pdf'']])"
    by code_simp
  have steps: "\<forall>i < length ?outss.
      split_pdf str_format (?fss ! i) (?pdfs ! i) 2
        (Some (PathObj (out_dir_for None (?pdfs ! i)))) None None True False =
      (?fss ! Suc i, Inr (?outss ! i))"
    using first by simp
  have second: "split_pdf str_format ?fs_a [''in'', ''b.pdf''] 2
      (Some (PathObj (out_dir_for None [''in'', ''b.pdf'']))) None None True False =
    (?fs_a, Inl (FitzError ''Failed to open file''))"
    by code_simp
  then have fail: "length ?outss < length ?pdfs \<and>
      split_pdf str_format (?fss ! length ?outss) (?pdfs ! length ?outss) 2
        (Some (PathObj (out_dir_for None (?pdfs ! length ?outss)))) None None True False =
      (?fs_a, Inl (FitzError ''Failed to open file''))"
    by simp
  have mem: "[''in'', ''a_part_02.pdf''] \<in> set (concat ?outss)"
    by simp
  from split_many_batch [OF find len start steps] fail mem
  show ?thesis by blast
qed

end
